theory Spec2Isabelle
  imports Main "HOL-Library.Word"
begin

unbundle bit_operations_syntax

section \<open>Data model of util/qdt.c\<close>

text \<open>
  The C module keeps a pointer graph of \<^verbatim>\<open>QDTNode\<close> structs. The store is a list of
  node records; a pointer is an index into it, \<^verbatim>\<open>g_new0\<close> returns the next free index,
  and \<^verbatim>\<open>NULL\<close> is \<open>None\<close>. Nothing in the module frees a node. A \<^verbatim>\<open>QTAILQ\<close> is the list
  of its elements in queue order. A C string is the list of its characters before the
  terminating NUL. Dereferencing a pointer that was never returned by the allocator is
  undefined in C and outside this model: statements about a node assume its index is
  below the length of the store.
\<close>

type_synonym byte = "8 word"
type_synonym addr = nat

record QDTProperty =
  prop_name :: string
  prop_len :: nat
  prop_val :: "byte list"

record QDTNode =
  name :: string
  parent :: "addr option"
  properties :: "QDTProperty list"
  children :: "addr list"

type_synonym heap = "QDTNode list"

text \<open>A failed \<^verbatim>\<open>g_assert\<close> aborts the process. A read of memory that has been freed
  is undefined in C; it is an outcome of its own, \<open>InvalidRead\<close>.\<close>

datatype error = AssertionFailed | InvalidRead

section \<open>Node functions\<close>

text \<open>\<^verbatim>\<open>qdt_new_node\<close>: \<^verbatim>\<open>g_new0\<close> zeroes the struct, so the parent pointer is NULL.\<close>

definition qdt_new_node :: "heap \<Rightarrow> string \<Rightarrow> error + (heap \<times> addr)" where
  "qdt_new_node h nm =
     (if CHR ''/'' \<in> set nm then Inl AssertionFailed
      else Inr (h @ [\<lparr>name = nm, parent = None, properties = [], children = []\<rparr>],
                length h))"

text \<open>\<^verbatim>\<open>qdt_new_tree\<close> (qdt.h).\<close>

definition qdt_new_tree :: "heap \<Rightarrow> error + (heap \<times> addr)" where
  "qdt_new_tree h = qdt_new_node h ''''"

text \<open>
  \<^verbatim>\<open>get_subnode\<close>: the name is given as a pointer and a length, here the string the
  pointer points into and the length. The loop returns the first child in queue order
  whose name has that length and those bytes.
\<close>

fun get_subnode_loop :: "heap \<Rightarrow> addr list \<Rightarrow> string \<Rightarrow> nat \<Rightarrow> addr option" where
  "get_subnode_loop h [] nm namelen = None"
| "get_subnode_loop h (child # rest) nm namelen =
     (if length (name (h ! child)) = namelen
         \<and> take namelen (name (h ! child)) = take namelen nm
      then Some child
      else get_subnode_loop h rest nm namelen)"

definition get_subnode :: "heap \<Rightarrow> addr \<Rightarrow> string \<Rightarrow> nat \<Rightarrow> error + addr option" where
  "get_subnode h par nm namelen =
     (if CHR ''/'' \<in> set (take namelen nm) then Inl AssertionFailed
      else Inr (get_subnode_loop h (children (h ! par)) nm namelen))"

text \<open>
  \<^verbatim>\<open>strchr(path, '/')\<close> is non-NULL exactly when the string contains a slash, and
  \<^verbatim>\<open>slash - path\<close> is the length of the part before the first one.
\<close>

definition seglen_of :: "string \<Rightarrow> nat" where
  "seglen_of path = length (takeWhile (\<lambda>c. c \<noteq> CHR ''/'') path)"

function qdt_get_node_relative :: "heap \<Rightarrow> addr \<Rightarrow> string \<Rightarrow> error + addr option" where
  "qdt_get_node_relative h node path =
     (let slash = (CHR ''/'' \<in> set path);
          seglen = seglen_of path
      in case get_subnode h node path seglen of
           Inl e \<Rightarrow> Inl e
         | Inr None \<Rightarrow> Inr None
         | Inr (Some node') \<Rightarrow>
             if slash then qdt_get_node_relative h node' (drop (seglen + 1) path)
             else Inr (Some node'))"
  by pat_completeness auto
termination
proof (relation "measure (\<lambda>(h, node, path). length path)")
  show "wf (measure (\<lambda>(h, node, path). length path))" by simp
next
  fix h :: heap and node :: addr and path :: string and x xa x2 x2a
  assume "x = (CHR ''/'' \<in> set path)" and "x"
  then have "path \<noteq> []" by auto
  then show "((h, x2a, drop (xa + 1) path), (h, node, path))
               \<in> measure (\<lambda>(h, node, path). length path)"
    by simp
qed

declare qdt_get_node_relative.simps [simp del]

text \<open>
  \<^verbatim>\<open>qdt_get_node\<close>: \<^verbatim>\<open>path[0]\<close> of the empty string is the NUL, which is not a slash.
\<close>

definition qdt_get_node :: "heap \<Rightarrow> addr \<Rightarrow> string \<Rightarrow> error + addr option" where
  "qdt_get_node h root path =
     (if parent (h ! root) \<noteq> None then Inl AssertionFailed
      else if \<not> (path \<noteq> [] \<and> hd path = CHR ''/'') then Inl AssertionFailed
      else qdt_get_node_relative h root (tl path))"

definition qdt_add_subnode :: "heap \<Rightarrow> addr \<Rightarrow> string \<Rightarrow> error + (heap \<times> addr)" where
  "qdt_add_subnode h par nm =
     (case qdt_new_node h nm of
        Inl e \<Rightarrow> Inl e
      | Inr (h1, child) \<Rightarrow>
          let h2 = h1[child := (h1 ! child)\<lparr>parent := Some par\<rparr>];
              h3 = h2[par := (h2 ! par)\<lparr>children := children (h2 ! par) @ [child]\<rparr>]
          in Inr (h3, child))"

section \<open>Property functions\<close>

text \<open>
  \<^verbatim>\<open>getprop_\<close> returns the first property in queue order whose name compares equal.
  The pointer it returns is modelled by the property it points to.
\<close>

text \<open>(\<open>getprop_impl\<close> is the source's \<^verbatim>\<open>getprop_\<close>; likewise \<open>qdt_setprop_cells_arr\<close> and
  \<open>qdt_setprop_u64s_arr\<close> below are \<^verbatim>\<open>qdt_setprop_cells_\<close> and \<^verbatim>\<open>qdt_setprop_u64s_\<close>:
  a name cannot end in an underscore here.)\<close>

definition getprop_impl :: "heap \<Rightarrow> addr \<Rightarrow> string \<Rightarrow> QDTProperty option" where
  "getprop_impl h node nm = find (\<lambda>prop. prop_name prop = nm) (properties (h ! node))"

definition qdt_getprop :: "heap \<Rightarrow> addr \<Rightarrow> string \<Rightarrow> QDTProperty option" where
  "qdt_getprop h node nm = getprop_impl h node nm"

text \<open>
  \<^verbatim>\<open>qdt_delprop\<close>: \<^verbatim>\<open>QTAILQ_REMOVE\<close> unlinks the element \<^verbatim>\<open>getprop_\<close> found, which is
  the first one equal to it in the queue.
\<close>

definition qdt_delprop :: "heap \<Rightarrow> addr \<Rightarrow> string \<Rightarrow> heap" where
  "qdt_delprop h node nm =
     (case getprop_impl h node nm of
        None \<Rightarrow> h
      | Some prop \<Rightarrow>
          h[node := (h ! node)\<lparr>properties := remove1 prop (properties (h ! node))\<rparr>])"

text \<open>
  The name and the value that \<^verbatim>\<open>qdt_setprop\<close> is given are pointers, and the function
  frees memory before it reads through them. A pointer argument is therefore modelled
  by what it reads at the time of the call and by the property, if any, whose memory
  it points into: \<open>Caller x\<close> points to memory of the caller's (a literal, a local array)
  that holds \<open>x\<close>; \<open>InProp node nm x\<close> points into the property that
  \<^verbatim>\<open>qdt_getprop(node, nm)\<close> returns, into its name or its value array, where it reads
  \<open>x\<close>. That the property exists when the call is made is the caller's business.
\<close>

datatype 'a ptr = Caller 'a | InProp addr string 'a

fun content :: "'a ptr \<Rightarrow> 'a" where
  "content (Caller x) = x"
| "content (InProp node nm x) = x"

fun points_into :: "'a ptr \<Rightarrow> (addr \<times> string) option" where
  "points_into (Caller x) = None"
| "points_into (InProp node nm x) = Some (node, nm)"

text \<open>
  \<^verbatim>\<open>qdt_setprop\<close>: \<^verbatim>\<open>qdt_delprop(node, name)\<close> comes first; when it finds a property
  it frees that property and its name. Then \<^verbatim>\<open>g_strdup(name)\<close> reads the name and
  \<^verbatim>\<open>memcpy\<close> reads \<open>len\<close> bytes of the value. A pointer into the property just freed
  makes such a read undefined in C; the outcome of the model is then \<open>InvalidRead\<close>.
\<close>

definition qdt_setprop ::
  "heap \<Rightarrow> addr \<Rightarrow> string ptr \<Rightarrow> byte list ptr \<Rightarrow> nat \<Rightarrow> error + (heap \<times> QDTProperty)" where
  "qdt_setprop h node name_arg val len =
     (let freed = (case getprop_impl h node (content name_arg) of
                     None \<Rightarrow> None
                   | Some old \<Rightarrow> Some (node, content name_arg));
          h1 = qdt_delprop h node (content name_arg)
      in if freed \<noteq> None \<and> points_into name_arg = freed then Inl InvalidRead
         else if freed \<noteq> None \<and> points_into val = freed then Inl InvalidRead
         else
           let prop = \<lparr>prop_name = content name_arg, prop_len = len,
                       prop_val = take len (content val)\<rparr>
           in Inr (h1[node := (h1 ! node)\<lparr>properties := properties (h1 ! node) @ [prop]\<rparr>],
                   prop))"

text \<open>
  The store and the property that \<^verbatim>\<open>qdt_setprop\<close> returns when it reads no freed
  memory, in terms of the name and the bytes read.
\<close>

definition setprop_done ::
  "heap \<Rightarrow> addr \<Rightarrow> string \<Rightarrow> byte list \<Rightarrow> nat \<Rightarrow> heap \<times> QDTProperty" where
  "setprop_done h node nm bytes len =
     (let h1 = qdt_delprop h node nm;
          prop = \<lparr>prop_name = nm, prop_len = len, prop_val = take len bytes\<rparr>
      in (h1[node := (h1 ! node)\<lparr>properties := properties (h1 ! node) @ [prop]\<rparr>], prop))"

text \<open>
  \<^verbatim>\<open>qdt_setprop_string\<close> takes the length of the string when it is called and hands
  the pointer on; what is copied is the characters and the terminating NUL.
\<close>

definition qdt_setprop_string ::
  "heap \<Rightarrow> addr \<Rightarrow> string ptr \<Rightarrow> string ptr \<Rightarrow> error + (heap \<times> QDTProperty)" where
  "qdt_setprop_string h node name_arg val =
     qdt_setprop h node name_arg (map_ptr (\<lambda>s. map of_char s @ [0]) val)
       (length (content val) + 1)"

text \<open>
  \<^verbatim>\<open>qdt_setprop_dup\<close> (qdt.h) passes the value array and the length of a property,
  here the one that \<^verbatim>\<open>qdt_getprop(oldnode, oldname)\<close> returns; when that is \<^verbatim>\<open>NULL\<close>
  the read of its length is an invalid one.
\<close>

definition qdt_setprop_dup ::
  "heap \<Rightarrow> addr \<Rightarrow> string ptr \<Rightarrow> addr \<Rightarrow> string \<Rightarrow> error + (heap \<times> QDTProperty)" where
  "qdt_setprop_dup h node name_arg oldnode oldname =
     (case qdt_getprop h oldnode oldname of
        None \<Rightarrow> Inl InvalidRead
      | Some oldprop \<Rightarrow>
          qdt_setprop h node name_arg (InProp oldnode oldname (prop_val oldprop))
            (prop_len oldprop))"

text \<open>
  The host stores an integer in memory in its own byte order; \<^verbatim>\<open>qdt_setprop\<close> copies
  the bytes of the array \<^verbatim>\<open>swapval\<close> as they lie in memory.
\<close>

datatype endian = LittleEndian | BigEndian

definition be32 :: "32 word \<Rightarrow> byte list" where
  "be32 w = [ucast (drop_bit 24 w), ucast (drop_bit 16 w), ucast (drop_bit 8 w), ucast w]"

definition be64 :: "64 word \<Rightarrow> byte list" where
  "be64 w = [ucast (drop_bit 56 w), ucast (drop_bit 48 w), ucast (drop_bit 40 w),
             ucast (drop_bit 32 w), ucast (drop_bit 24 w), ucast (drop_bit 16 w),
             ucast (drop_bit 8 w), ucast w]"

definition mem_u32 :: "endian \<Rightarrow> 32 word \<Rightarrow> byte list" where
  "mem_u32 host w = (case host of BigEndian \<Rightarrow> be32 w | LittleEndian \<Rightarrow> rev (be32 w))"

definition mem_u64 :: "endian \<Rightarrow> 64 word \<Rightarrow> byte list" where
  "mem_u64 host w = (case host of BigEndian \<Rightarrow> be64 w | LittleEndian \<Rightarrow> rev (be64 w))"

text \<open>
  Modelled from the spec: \<^verbatim>\<open>cpu_to_fdt32\<close> and \<^verbatim>\<open>cpu_to_fdt64\<close> come from the libfdt
  headers, which are not part of the sources at hand. The specification asks for values
  "encoded ... in big-endian order regardless of host byte order": on a big-endian host
  the value is left as it is, on a little-endian host its bytes are reversed.
\<close>

definition bswap32 :: "32 word \<Rightarrow> 32 word" where
  "bswap32 w = push_bit 24 (take_bit 8 w) OR push_bit 16 (take_bit 8 (drop_bit 8 w))
               OR push_bit 8 (take_bit 8 (drop_bit 16 w)) OR (take_bit 8 (drop_bit 24 w))"

definition bswap64 :: "64 word \<Rightarrow> 64 word" where
  "bswap64 w = push_bit 56 (take_bit 8 w) OR push_bit 48 (take_bit 8 (drop_bit 8 w))
               OR push_bit 40 (take_bit 8 (drop_bit 16 w)) OR push_bit 32 (take_bit 8 (drop_bit 24 w))
               OR push_bit 24 (take_bit 8 (drop_bit 32 w)) OR push_bit 16 (take_bit 8 (drop_bit 40 w))
               OR push_bit 8 (take_bit 8 (drop_bit 48 w)) OR (take_bit 8 (drop_bit 56 w))"

definition cpu_to_fdt32 :: "endian \<Rightarrow> 32 word \<Rightarrow> 32 word" where
  "cpu_to_fdt32 host w = (case host of BigEndian \<Rightarrow> w | LittleEndian \<Rightarrow> bswap32 w)"

definition cpu_to_fdt64 :: "endian \<Rightarrow> 64 word \<Rightarrow> 64 word" where
  "cpu_to_fdt64 host w = (case host of BigEndian \<Rightarrow> w | LittleEndian \<Rightarrow> bswap64 w)"

text \<open>
  \<^verbatim>\<open>qdt_setprop_cells_\<close>: the loop fills \<^verbatim>\<open>swapval[0..len-1]\<close> from the first \<open>len\<close>
  elements of \<open>val\<close>, before anything is freed; \<^verbatim>\<open>sizeof(swapval)\<close> is four times
  \<open>len\<close>. The array \<^verbatim>\<open>swapval\<close> is a local one; the name pointer is handed on.
\<close>

definition qdt_setprop_cells_arr ::
  "endian \<Rightarrow> heap \<Rightarrow> addr \<Rightarrow> string ptr \<Rightarrow> 32 word list \<Rightarrow> nat
     \<Rightarrow> error + (heap \<times> QDTProperty)" where
  "qdt_setprop_cells_arr host h node name_arg val len =
     (let swapval = map (cpu_to_fdt32 host) (take len val)
      in qdt_setprop h node name_arg (Caller (concat (map (mem_u32 host) swapval))) (4 * len))"

definition qdt_setprop_u64s_arr ::
  "endian \<Rightarrow> heap \<Rightarrow> addr \<Rightarrow> string ptr \<Rightarrow> 64 word list \<Rightarrow> nat
     \<Rightarrow> error + (heap \<times> QDTProperty)" where
  "qdt_setprop_u64s_arr host h node name_arg val len =
     (let swapval = map (cpu_to_fdt64 host) (take len val)
      in qdt_setprop h node name_arg (Caller (concat (map (mem_u64 host) swapval))) (8 * len))"

text \<open>
  The macros \<^verbatim>\<open>qdt_setprop_cells\<close> and \<^verbatim>\<open>qdt_setprop_u64s\<close> (qdt.h) build the array from
  their arguments and pass its element count.
\<close>

definition qdt_setprop_cells ::
  "endian \<Rightarrow> heap \<Rightarrow> addr \<Rightarrow> string ptr \<Rightarrow> 32 word list \<Rightarrow> error + (heap \<times> QDTProperty)" where
  "qdt_setprop_cells host h node name_arg vals =
     qdt_setprop_cells_arr host h node name_arg vals (length vals)"

definition qdt_setprop_u64s ::
  "endian \<Rightarrow> heap \<Rightarrow> addr \<Rightarrow> string ptr \<Rightarrow> 64 word list \<Rightarrow> error + (heap \<times> QDTProperty)" where
  "qdt_setprop_u64s host h node name_arg vals =
     qdt_setprop_u64s_arr host h node name_arg vals (length vals)"

text \<open>\<^verbatim>\<open>qdt_set_phandle\<close>: \<^verbatim>\<open>(uint32_t)-1\<close> is the word \<open>- 1\<close>, all bits set. The two
  names are string literals.\<close>

definition qdt_set_phandle :: "endian \<Rightarrow> heap \<Rightarrow> addr \<Rightarrow> 32 word \<Rightarrow> error + heap" where
  "qdt_set_phandle host h node phandle =
     (if \<not> (phandle \<noteq> 0 \<and> phandle \<noteq> - 1) then Inl AssertionFailed
      else
        (case qdt_setprop_cells host h node (Caller ''linux,phandle'') [phandle] of
           Inl e \<Rightarrow> Inl e
         | Inr (h1, p1) \<Rightarrow>
             (case qdt_setprop_cells host h1 node (Caller ''phandle'') [phandle] of
                Inl e \<Rightarrow> Inl e
              | Inr (h2, p2) \<Rightarrow> Inr h2)))"

section \<open>Whole tree functions\<close>

text \<open>
  libfdt's sequential-write functions are external. They are taken as a parameter: each
  gets the buffer and returns its \<^verbatim>\<open>int\<close> result with the buffer as it has left it.
  \<^verbatim>\<open>g_malloc0\<close> gives the zeroed buffer of the size asked for. An \<^verbatim>\<open>Error\<close> object is
  its message.
\<close>

record 'b fdt_lib =
  g_malloc0 :: "nat \<Rightarrow> 'b"
  fdt_create :: "'b \<Rightarrow> nat \<Rightarrow> int \<times> 'b"
  fdt_finish_reservemap :: "'b \<Rightarrow> int \<times> 'b"
  fdt_begin_node :: "'b \<Rightarrow> string \<Rightarrow> int \<times> 'b"
  fdt_property :: "'b \<Rightarrow> string \<Rightarrow> byte list \<Rightarrow> nat \<Rightarrow> int \<times> 'b"
  fdt_end_node :: "'b \<Rightarrow> int \<times> 'b"
  fdt_finish :: "'b \<Rightarrow> int \<times> 'b"
  fdt_strerror :: "int \<Rightarrow> string"

type_synonym Error = string

text \<open>The first loop of \<^verbatim>\<open>qdt_flatten_node\<close>, over the properties.\<close>

fun flatten_props :: "'b fdt_lib \<Rightarrow> 'b \<Rightarrow> QDTProperty list \<Rightarrow> 'b \<times> Error option" where
  "flatten_props lib fdt [] = (fdt, None)"
| "flatten_props lib fdt (prop # rest) =
     (case fdt_property lib fdt (prop_name prop) (prop_val prop) (prop_len prop) of
        (ret, fdt') \<Rightarrow>
          if ret < 0
          then (fdt', Some (''Error flattening device tree: fdt_property(): ''
                            @ fdt_strerror lib ret))
          else flatten_props lib fdt' rest)"

text \<open>
  \<^verbatim>\<open>qdt_flatten_node\<close> recurses through the pointer graph, which need not be a tree as
  far as the C types go. The first argument bounds the depth of the call stack: a call
  that would need a deeper stack gives \<open>None\<close>. The result is the buffer as the call has
  left it and the error it has set, if any. \<open>flatten_children\<close> is the second loop.
\<close>

fun qdt_flatten_node ::
      "nat \<Rightarrow> 'b fdt_lib \<Rightarrow> heap \<Rightarrow> 'b \<Rightarrow> addr \<Rightarrow> ('b \<times> Error option) option"
  and flatten_children ::
      "nat \<Rightarrow> 'b fdt_lib \<Rightarrow> heap \<Rightarrow> 'b \<Rightarrow> addr list \<Rightarrow> ('b \<times> Error option) option"
where
  "qdt_flatten_node 0 lib h fdt node = None"
| "qdt_flatten_node (Suc depth) lib h fdt node =
     (case fdt_begin_node lib fdt (name (h ! node)) of
        (ret, fdt1) \<Rightarrow>
          if ret < 0
          then Some (fdt1, Some (''Error flattening device tree: fdt_begin_node(): ''
                                 @ fdt_strerror lib ret))
          else
            (case flatten_props lib fdt1 (properties (h ! node)) of
               (fdt2, Some err) \<Rightarrow> Some (fdt2, Some err)
             | (fdt2, None) \<Rightarrow>
                 (case flatten_children depth lib h fdt2 (children (h ! node)) of
                    None \<Rightarrow> None
                  | Some (fdt3, Some local_err) \<Rightarrow> Some (fdt3, Some local_err)
                  | Some (fdt3, None) \<Rightarrow>
                      (case fdt_end_node lib fdt3 of
                         (ret', fdt4) \<Rightarrow>
                           if ret' < 0
                           then Some (fdt4,
                                  Some (''Error flattening device tree: fdt_end_node(): ''
                                        @ fdt_strerror lib ret'))
                           else Some (fdt4, None)))))"
| "flatten_children depth lib h fdt [] = Some (fdt, None)"
| "flatten_children depth lib h fdt (subnode # rest) =
     (case qdt_flatten_node depth lib h fdt subnode of
        None \<Rightarrow> None
      | Some (fdt', Some local_err) \<Rightarrow> Some (fdt', Some local_err)
      | Some (fdt', None) \<Rightarrow> flatten_children depth lib h fdt' rest)"

text \<open>
  \<^verbatim>\<open>qdt_flatten\<close> returns a buffer pointer (\<open>None\<close> for NULL) and what it has stored
  through \<^verbatim>\<open>errp\<close>. At the label \<^verbatim>\<open>fail\<close> the buffer is freed and NULL returned.
\<close>

definition qdt_flatten ::
  "nat \<Rightarrow> 'b fdt_lib \<Rightarrow> heap \<Rightarrow> addr \<Rightarrow> nat \<Rightarrow> (error + ('b option \<times> Error option)) option" where
  "qdt_flatten depth lib h root bufsize =
     (let fdt = g_malloc0 lib bufsize in
      if parent (h ! root) \<noteq> None then Some (Inl AssertionFailed)
      else
        (case fdt_create lib fdt bufsize of
           (ret, fdt1) \<Rightarrow>
             if ret < 0
             then Some (Inr (None, Some (''Error flattening device tree: fdt_create(): ''
                                         @ fdt_strerror lib ret)))
             else
               (case fdt_finish_reservemap lib fdt1 of
                  (ret2, fdt2) \<Rightarrow>
                    if ret2 < 0
                    then Some (Inr (None,
                           Some (''Error flattening device tree: fdt_finish_reservemap(): ''
                                 @ fdt_strerror lib ret2)))
                    else
                      (case qdt_flatten_node depth lib h fdt2 root of
                         None \<Rightarrow> None
                       | Some (fdt3, Some local_err) \<Rightarrow> Some (Inr (None, Some local_err))
                       | Some (fdt3, None) \<Rightarrow>
                           (case fdt_finish lib fdt3 of
                              (ret4, fdt4) \<Rightarrow>
                                if ret4 < 0
                                then Some (Inr (None,
                                       Some (''Error flattening device tree: fdt_finish(): ''
                                             @ fdt_strerror lib ret4)))
                                else Some (Inr (Some fdt4, None)))))))"

section \<open>Programs over the interface\<close>

text \<open>
  A client builds a tree by a sequence of calls. A call is defined only on pointers that
  are good when it is made: a node pointer that an earlier call has returned (an index
  below the length of the store), a pointer into a property that exists, and for
  \<^verbatim>\<open>qdt_setprop\<close> a value of which \<open>len\<close> bytes can be read. \<open>api_call\<close> gives \<open>None\<close>
  when the call is not defined, aborts on an assertion or reads freed memory, so a
  program that gets through has stayed within defined behaviour.
\<close>

definition ptr_live :: "heap \<Rightarrow> 'a ptr \<Rightarrow> bool" where
  "ptr_live h p =
     (case points_into p of
        None \<Rightarrow> True
      | Some (node, nm) \<Rightarrow> node < length h \<and> getprop_impl h node nm \<noteq> None)"

datatype api_op =
    NewNode string
  | AddSubnode addr string
  | SetProp addr "string ptr" "byte list ptr" nat
  | SetPropString addr "string ptr" "string ptr"
  | SetPropCells addr "string ptr" "32 word list"
  | SetPropU64s addr "string ptr" "64 word list"
  | SetPropDup addr "string ptr" addr string
  | SetPhandle addr "32 word"
  | DelProp addr string

fun api_call :: "endian \<Rightarrow> heap \<Rightarrow> api_op \<Rightarrow> heap option" where
  "api_call host h (NewNode nm) =
     (case qdt_new_node h nm of Inl e \<Rightarrow> None | Inr (h', node) \<Rightarrow> Some h')"
| "api_call host h (AddSubnode par nm) =
     (if par < length h
      then (case qdt_add_subnode h par nm of Inl e \<Rightarrow> None | Inr (h', node) \<Rightarrow> Some h')
      else None)"
| "api_call host h (SetProp node name_arg val len) =
     (if node < length h \<and> ptr_live h name_arg \<and> ptr_live h val \<and> len \<le> length (content val)
      then (case qdt_setprop h node name_arg val len of
              Inl e \<Rightarrow> None | Inr (h', prop) \<Rightarrow> Some h')
      else None)"
| "api_call host h (SetPropString node name_arg val) =
     (if node < length h \<and> ptr_live h name_arg \<and> ptr_live h val
      then (case qdt_setprop_string h node name_arg val of
              Inl e \<Rightarrow> None | Inr (h', prop) \<Rightarrow> Some h')
      else None)"
| "api_call host h (SetPropCells node name_arg vals) =
     (if node < length h \<and> ptr_live h name_arg
      then (case qdt_setprop_cells host h node name_arg vals of
              Inl e \<Rightarrow> None | Inr (h', prop) \<Rightarrow> Some h')
      else None)"
| "api_call host h (SetPropU64s node name_arg vals) =
     (if node < length h \<and> ptr_live h name_arg
      then (case qdt_setprop_u64s host h node name_arg vals of
              Inl e \<Rightarrow> None | Inr (h', prop) \<Rightarrow> Some h')
      else None)"
| "api_call host h (SetPropDup node name_arg oldnode oldname) =
     (if node < length h \<and> ptr_live h name_arg \<and> oldnode < length h
      then (case qdt_setprop_dup h node name_arg oldnode oldname of
              Inl e \<Rightarrow> None | Inr (h', prop) \<Rightarrow> Some h')
      else None)"
| "api_call host h (SetPhandle node phandle) =
     (if node < length h
      then (case qdt_set_phandle host h node phandle of Inl e \<Rightarrow> None | Inr h' \<Rightarrow> Some h')
      else None)"
| "api_call host h (DelProp node nm) =
     (if node < length h then Some (qdt_delprop h node nm) else None)"

fun run_api :: "endian \<Rightarrow> heap \<Rightarrow> api_op list \<Rightarrow> heap option" where
  "run_api host h [] = Some h"
| "run_api host h (c # cs) =
     (case api_call host h c of None \<Rightarrow> None | Some h' \<Rightarrow> run_api host h' cs)"

text \<open>The shape every store built this way has: children are younger than their parent,
  point back to it, and are listed once.\<close>

definition tree_shaped :: "heap \<Rightarrow> bool" where
  "tree_shaped h =
     (\<forall>p<length h. distinct (children (h ! p)) \<and>
        (\<forall>c\<in>set (children (h ! p)). p < c \<and> c < length h \<and> parent (h ! c) = Some p))"

text \<open>Two stores with the same nodes, names and links; only properties may differ.\<close>

definition same_links :: "heap \<Rightarrow> heap \<Rightarrow> bool" where
  "same_links h h' =
     (map name h' = map name h \<and> map parent h' = map parent h
      \<and> map children h' = map children h)"

definition props_distinct :: "QDTNode \<Rightarrow> bool" where
  "props_distinct n = distinct (map prop_name (properties n))"

definition heap_props_distinct :: "heap \<Rightarrow> bool" where
  "heap_props_distinct h = list_all props_distinct h"

section \<open>Path resolution as the specification describes it\<close>

text \<open>
  Following the specification's words (section 4.1): the path is a sequence of segments
  delimited by the separator, so a path with \<open>k\<close> separators has \<open>k + 1\<close> segments, the
  last one empty when the path ends in a separator (or is empty).
\<close>

fun segments :: "string \<Rightarrow> string list" where
  "segments [] = [[]]"
| "segments (c # cs) =
     (if c = CHR ''/'' then [] # segments cs
      else (case segments cs of [] \<Rightarrow> [[c]] | seg # segs \<Rightarrow> (c # seg) # segs))"

text \<open>
  "Look up a direct child of the current node whose name exactly matches the segment; if
  found, that child becomes the current node and resolution continues with the remaining
  path; if not found, resolution stops immediately and the overall result is not-found."
  With several children of that name the first in child-list order is taken (section 9).
\<close>

definition child_named :: "heap \<Rightarrow> addr \<Rightarrow> string \<Rightarrow> addr option" where
  "child_named h node seg = find (\<lambda>c. name (h ! c) = seg) (children (h ! node))"

fun resolve :: "heap \<Rightarrow> addr \<Rightarrow> string list \<Rightarrow> addr option" where
  "resolve h node [] = Some node"
| "resolve h node (seg # segs) =
     (case child_named h node seg of None \<Rightarrow> None | Some child \<Rightarrow> resolve h child segs)"

section \<open>The tree below a node and the traversal the specification describes\<close>

datatype tree = Tree string "QDTProperty list" "tree list"

text \<open>The tree found by following child pointers from a node, at most \<open>depth\<close> levels
  deep; \<open>None\<close> when the pointers go deeper.\<close>

fun tree_of :: "nat \<Rightarrow> heap \<Rightarrow> addr \<Rightarrow> tree option"
  and trees_of :: "nat \<Rightarrow> heap \<Rightarrow> addr list \<Rightarrow> tree list option"
where
  "tree_of 0 h node = None"
| "tree_of (Suc depth) h node =
     (case trees_of depth h (children (h ! node)) of
        None \<Rightarrow> None
      | Some ts \<Rightarrow> Some (Tree (name (h ! node)) (properties (h ! node)) ts))"
| "trees_of depth h [] = Some []"
| "trees_of depth h (c # cs) =
     (case tree_of depth h c of
        None \<Rightarrow> None
      | Some t \<Rightarrow> (case trees_of depth h cs of None \<Rightarrow> None | Some ts \<Rightarrow> Some (t # ts)))"

fun height :: "tree \<Rightarrow> nat" where
  "height (Tree nm props ts) = Suc (fold max (map height ts) 0)"

text \<open>The calls into the encoder, as data.\<close>

datatype fdt_op =
    Create nat
  | FinishReservemap
  | BeginNode string
  | Property string "byte list" nat
  | EndNode
  | Finish

fun emit :: "'b fdt_lib \<Rightarrow> 'b \<Rightarrow> fdt_op \<Rightarrow> int \<times> 'b" where
  "emit lib fdt (Create bufsize) = fdt_create lib fdt bufsize"
| "emit lib fdt FinishReservemap = fdt_finish_reservemap lib fdt"
| "emit lib fdt (BeginNode nm) = fdt_begin_node lib fdt nm"
| "emit lib fdt (Property nm val len) = fdt_property lib fdt nm val len"
| "emit lib fdt EndNode = fdt_end_node lib fdt"
| "emit lib fdt Finish = fdt_finish lib fdt"

fun step_name :: "fdt_op \<Rightarrow> string" where
  "step_name (Create bufsize) = ''fdt_create''"
| "step_name FinishReservemap = ''fdt_finish_reservemap''"
| "step_name (BeginNode nm) = ''fdt_begin_node''"
| "step_name (Property nm val len) = ''fdt_property''"
| "step_name EndNode = ''fdt_end_node''"
| "step_name Finish = ''fdt_finish''"

definition step_error :: "'b fdt_lib \<Rightarrow> fdt_op \<Rightarrow> int \<Rightarrow> Error" where
  "step_error lib op ret =
     ''Error flattening device tree: '' @ step_name op @ ''(): '' @ fdt_strerror lib ret"

text \<open>
  Following the specification's words (section 4.3, step 4): node-begin with the name,
  then a property record for each property in list order, then the same for each child
  in child-list order, then node-end.
\<close>

fun preorder_ops :: "tree \<Rightarrow> fdt_op list" where
  "preorder_ops (Tree nm props ts) =
     BeginNode nm
     # map (\<lambda>prop. Property (prop_name prop) (prop_val prop) (prop_len prop)) props
     @ concat (map preorder_ops ts)
     @ [EndNode]"

text \<open>
  Following the specification's words: the calls are made one after the other, and the
  first one that fails ends the run with an error naming it; no later call is made.
\<close>

fun run_ops :: "'b fdt_lib \<Rightarrow> 'b \<Rightarrow> fdt_op list \<Rightarrow> 'b \<times> Error option" where
  "run_ops lib fdt [] = (fdt, None)"
| "run_ops lib fdt (op # ops) =
     (case emit lib fdt op of
        (ret, fdt') \<Rightarrow>
          if ret < 0 then (fdt', Some (step_error lib op ret)) else run_ops lib fdt' ops)"

text \<open>The steps of a whole flattening (section 4.3, steps 2 to 5).\<close>

definition flatten_steps :: "nat \<Rightarrow> tree \<Rightarrow> fdt_op list" where
  "flatten_steps bufsize t = Create bufsize # FinishReservemap # preorder_ops t @ [Finish]"

text \<open>An encoder that never fails and keeps the list of the calls made to it.\<close>

definition recorder :: "(fdt_op list) fdt_lib" where
  "recorder =
     \<lparr>g_malloc0 = (\<lambda>n. []),
      fdt_create = (\<lambda>fdt bufsize. (0, fdt @ [Create bufsize])),
      fdt_finish_reservemap = (\<lambda>fdt. (0, fdt @ [FinishReservemap])),
      fdt_begin_node = (\<lambda>fdt nm. (0, fdt @ [BeginNode nm])),
      fdt_property = (\<lambda>fdt nm val len. (0, fdt @ [Property nm val len])),
      fdt_end_node = (\<lambda>fdt. (0, fdt @ [EndNode])),
      fdt_finish = (\<lambda>fdt. (0, fdt @ [Finish])),
      fdt_strerror = (\<lambda>ret. ''error'')\<rparr>"

text \<open>An encoder that keeps the list of the calls and fails from the \<open>k\<close>-th call on
  (counting from 0), as one does whose buffer is full.\<close>

definition failing_recorder :: "nat \<Rightarrow> (fdt_op list) fdt_lib" where
  "failing_recorder k =
     \<lparr>g_malloc0 = (\<lambda>n. []),
      fdt_create = (\<lambda>fdt bufsize. (if length fdt < k then 0 else - 3, fdt @ [Create bufsize])),
      fdt_finish_reservemap =
        (\<lambda>fdt. (if length fdt < k then 0 else - 3, fdt @ [FinishReservemap])),
      fdt_begin_node = (\<lambda>fdt nm. (if length fdt < k then 0 else - 3, fdt @ [BeginNode nm])),
      fdt_property =
        (\<lambda>fdt nm val len. (if length fdt < k then 0 else - 3, fdt @ [Property nm val len])),
      fdt_end_node = (\<lambda>fdt. (if length fdt < k then 0 else - 3, fdt @ [EndNode])),
      fdt_finish = (\<lambda>fdt. (if length fdt < k then 0 else - 3, fdt @ [Finish])),
      fdt_strerror = (\<lambda>ret. ''FDT_ERR_NOSPACE'')\<rparr>"

section \<open>An example tree\<close>

text \<open>The store after creating a root with a \<open>model\<close> property, a node \<open>cpus\<close> with a child
  \<open>cpu@0\<close> that has a \<open>reg\<close> cell, and a node \<open>memory\<close>; the tree below its root; and the
  calls that build it.\<close>

definition example_calls :: "api_op list" where
  "example_calls =
     [NewNode [], SetPropString 0 (Caller ''model'') (Caller ''q''), AddSubnode 0 ''cpus'',
      AddSubnode 1 ''cpu@0'', SetPropCells 2 (Caller ''reg'') [7], AddSubnode 0 ''memory'']"

definition example_heap :: heap where
  "example_heap =
     [\<lparr>name = [], parent = None,
       properties = [\<lparr>prop_name = ''model'', prop_len = 2, prop_val = [113, 0]\<rparr>],
       children = [1, 3]\<rparr>,
      \<lparr>name = ''cpus'', parent = Some 0, properties = [], children = [2]\<rparr>,
      \<lparr>name = ''cpu@0'', parent = Some 1,
       properties = [\<lparr>prop_name = ''reg'', prop_len = 4, prop_val = [0, 0, 0, 7]\<rparr>],
       children = []\<rparr>,
      \<lparr>name = ''memory'', parent = Some 0, properties = [], children = []\<rparr>]"

definition example_tree :: tree where
  "example_tree =
     Tree [] [\<lparr>prop_name = ''model'', prop_len = 2, prop_val = [113, 0]\<rparr>]
       [Tree ''cpus'' []
          [Tree ''cpu@0'' [\<lparr>prop_name = ''reg'', prop_len = 4, prop_val = [0, 0, 0, 7]\<rparr>] []],
        Tree ''memory'' [] []]"

section \<open>Properties of a node\<close>

lemma find_None_filter:
  "find (\<lambda>p. f p = k) ps = None \<Longrightarrow> filter (\<lambda>q. f q \<noteq> k) ps = ps"
  by (induction ps) (auto split: if_splits)

lemma find_remove1_filter:
  "distinct (map f ps) \<Longrightarrow> find (\<lambda>p. f p = k) ps = Some p
     \<Longrightarrow> remove1 p ps = filter (\<lambda>q. f q \<noteq> k) ps"
proof (induction ps)
  case Nil
  then show ?case by simp
next
  case (Cons a ps)
  show ?case
  proof (cases "f a = k")
    case True
    with Cons.prems have "p = a" by simp
    moreover from True Cons.prems have "\<forall>q\<in>set ps. f q \<noteq> k" by (auto simp: image_iff)
    then have "filter (\<lambda>q. f q \<noteq> k) ps = ps" by (simp add: filter_id_conv)
    ultimately show ?thesis using True by simp
  next
    case False
    with Cons.prems have "find (\<lambda>p. f p = k) ps = Some p" by simp
    moreover from this have "f p = k" by (auto simp: find_Some_iff)
    ultimately show ?thesis using False Cons by auto
  qed
qed

lemma qdt_delprop_filter:
  "props_distinct (h ! node) \<Longrightarrow>
   qdt_delprop h node nm =
     h[node := (h ! node)\<lparr>properties := filter (\<lambda>q. prop_name q \<noteq> nm) (properties (h ! node))\<rparr>]"
  by (auto simp: qdt_delprop_def getprop_impl_def props_distinct_def find_None_filter
        find_remove1_filter split: option.splits)

lemma setprop_done_filter:
  "node < length h \<Longrightarrow> props_distinct (h ! node) \<Longrightarrow>
   setprop_done h node nm val len =
     (h[node := (h ! node)\<lparr>properties :=
          filter (\<lambda>q. prop_name q \<noteq> nm) (properties (h ! node))
          @ [\<lparr>prop_name = nm, prop_len = len, prop_val = take len val\<rparr>]\<rparr>],
      \<lparr>prop_name = nm, prop_len = len, prop_val = take len val\<rparr>)"
  by (simp add: setprop_done_def qdt_delprop_filter Let_def)

lemma distinct_filter_snoc:
  "distinct (map prop_name ps) \<Longrightarrow>
   distinct (map prop_name (filter (\<lambda>q. prop_name q \<noteq> nm) ps @ [\<lparr>prop_name = nm, prop_len = l, prop_val = v\<rparr>]))"
  by (auto simp: distinct_map_filter)

lemma heap_props_distinct_update:
  "heap_props_distinct h \<Longrightarrow> distinct (map prop_name ps) \<Longrightarrow>
   heap_props_distinct (h[node := n\<lparr>properties := ps\<rparr>])"
  by (auto simp: heap_props_distinct_def list_all_iff props_distinct_def
        dest!: set_update_subset_insert [THEN subsetD])

lemma heap_props_distinct_nth:
  "heap_props_distinct h \<Longrightarrow> node < length h \<Longrightarrow> props_distinct (h ! node)"
  by (simp add: heap_props_distinct_def list_all_length)

lemma qdt_delprop_distinct:
  assumes a: "heap_props_distinct h"
  shows "heap_props_distinct (qdt_delprop h node nm)"
proof (cases "node < length h")
  case True
  have d: "props_distinct (h ! node)" by (rule heap_props_distinct_nth [OF a True])
  then have "distinct (map prop_name (filter (\<lambda>q. prop_name q \<noteq> nm) (properties (h ! node))))"
    by (simp add: props_distinct_def distinct_map_filter)
  then show ?thesis unfolding qdt_delprop_filter [OF d]
    by (rule heap_props_distinct_update [OF a])
next
  case False
  then have "qdt_delprop h node nm = h"
    by (simp add: qdt_delprop_def list_update_beyond split: option.splits)
  with a show ?thesis by simp
qed

lemma setprop_done_distinct:
  assumes a: "heap_props_distinct h"
  shows "heap_props_distinct (fst (setprop_done h node nm val len))"
proof (cases "node < length h")
  case True
  have d: "props_distinct (h ! node)" by (rule heap_props_distinct_nth [OF a True])
  then have "distinct (map prop_name (filter (\<lambda>q. prop_name q \<noteq> nm) (properties (h ! node))
               @ [\<lparr>prop_name = nm, prop_len = len, prop_val = take len val\<rparr>]))"
    unfolding props_distinct_def by (rule distinct_filter_snoc)
  then show ?thesis unfolding setprop_done_filter [OF True d] fst_conv
    by (rule heap_props_distinct_update [OF a])
next
  case False
  then have "fst (setprop_done h node nm val len) = h"
    by (simp add: setprop_done_def qdt_delprop_def Let_def list_update_beyond split: option.splits)
  with a show ?thesis by simp
qed

text \<open>
  \<^verbatim>\<open>qdt_setprop\<close> reads freed memory exactly when the node has a property of the name
  given and the name or the value points into that property; otherwise it returns what
  \<open>setprop_done\<close> describes.
\<close>

lemma qdt_setprop_eq:
  "qdt_setprop h node name_arg val len =
     (if getprop_impl h node (content name_arg) \<noteq> None
         \<and> (points_into name_arg = Some (node, content name_arg)
            \<or> points_into val = Some (node, content name_arg))
      then Inl InvalidRead
      else Inr (setprop_done h node (content name_arg) (content val) len))"
  by (auto simp: qdt_setprop_def setprop_done_def Let_def split: option.splits)

lemma qdt_setprop_Inr:
  "qdt_setprop h node name_arg val len = Inr r \<Longrightarrow>
   r = setprop_done h node (content name_arg) (content val) len"
  by (simp add: qdt_setprop_eq split: if_splits)

lemma qdt_setprop_Caller:
  "qdt_setprop h node (Caller nm) (Caller bytes) len = Inr (setprop_done h node nm bytes len)"
  by (simp add: qdt_setprop_eq)

lemma content_map_ptr: "content (map_ptr f p) = f (content p)"
  by (cases p) simp_all

lemma points_into_map_ptr: "points_into (map_ptr f p) = points_into p"
  by (cases p) simp_all

lemma qdt_setprop_distinct:
  assumes "heap_props_distinct h" and "qdt_setprop h node name_arg val len = Inr (h', p)"
  shows "heap_props_distinct h'"
proof -
  from qdt_setprop_Inr [OF assms(2), symmetric]
  have "h' = fst (setprop_done h node (content name_arg) (content val) len)" by simp
  then show ?thesis by (simp add: setprop_done_distinct [OF assms(1)])
qed

lemma same_links_refl: "same_links h h"
  by (simp add: same_links_def)

lemma same_links_trans: "same_links h h1 \<Longrightarrow> same_links h1 h2 \<Longrightarrow> same_links h h2"
  by (simp add: same_links_def)

lemma same_links_update:
  "same_links h (h[node := (h ! node)\<lparr>properties := ps\<rparr>])"
  by (cases "node < length h")
    (simp_all add: same_links_def map_update list_update_beyond list_update_same_conv)

lemma same_links_nth:
  assumes "same_links h h'"
  shows "length h' = length h"
    and "a < length h \<Longrightarrow> name (h' ! a) = name (h ! a)"
    and "a < length h \<Longrightarrow> parent (h' ! a) = parent (h ! a)"
    and "a < length h \<Longrightarrow> children (h' ! a) = children (h ! a)"
proof -
  from assms have n: "map name h' = map name h" and p: "map parent h' = map parent h"
    and c: "map children h' = map children h" by (simp_all add: same_links_def)
  from n show l: "length h' = length h" by (rule map_eq_imp_length_eq)
  { assume a: "a < length h"
    from n a l show "name (h' ! a) = name (h ! a)" by (metis nth_map)
    from p a l show "parent (h' ! a) = parent (h ! a)" by (metis nth_map)
    from c a l show "children (h' ! a) = children (h ! a)" by (metis nth_map) }
qed

lemma qdt_delprop_links: "same_links h (qdt_delprop h node nm)"
  by (simp add: qdt_delprop_def same_links_refl same_links_update split: option.splits)

lemma setprop_done_links: "same_links h (fst (setprop_done h node nm val len))"
  unfolding setprop_done_def Let_def fst_conv
  by (rule same_links_trans [OF qdt_delprop_links same_links_update])

lemma qdt_setprop_links:
  assumes "qdt_setprop h node name_arg val len = Inr (h', p)"
  shows "same_links h h'"
proof -
  from qdt_setprop_Inr [OF assms, symmetric]
  have "h' = fst (setprop_done h node (content name_arg) (content val) len)" by simp
  then show ?thesis by (simp add: setprop_done_links)
qed

lemma qdt_setprop_cells_links:
  "qdt_setprop_cells host h node name_arg vals = Inr (h', p) \<Longrightarrow> same_links h h'"
  unfolding qdt_setprop_cells_def qdt_setprop_cells_arr_def Let_def by (rule qdt_setprop_links)

lemma qdt_setprop_u64s_links:
  "qdt_setprop_u64s host h node name_arg vals = Inr (h', p) \<Longrightarrow> same_links h h'"
  unfolding qdt_setprop_u64s_def qdt_setprop_u64s_arr_def Let_def by (rule qdt_setprop_links)

lemma qdt_setprop_string_links:
  "qdt_setprop_string h node name_arg val = Inr (h', p) \<Longrightarrow> same_links h h'"
  unfolding qdt_setprop_string_def by (rule qdt_setprop_links)

lemma qdt_setprop_dup_links:
  "qdt_setprop_dup h node name_arg oldnode oldname = Inr (h', p) \<Longrightarrow> same_links h h'"
  by (auto simp: qdt_setprop_dup_def split: option.splits dest: qdt_setprop_links)

lemma qdt_set_phandle_eq:
  "qdt_set_phandle host h node v = Inr h' \<Longrightarrow>
   v \<noteq> 0 \<and> v \<noteq> - 1 \<and>
   (\<exists>h1 p1 p2. qdt_setprop_cells host h node (Caller ''linux,phandle'') [v] = Inr (h1, p1)
      \<and> qdt_setprop_cells host h1 node (Caller ''phandle'') [v] = Inr (h', p2))"
  by (auto simp: qdt_set_phandle_def split: if_splits sum.splits prod.splits)

lemma qdt_set_phandle_links: "qdt_set_phandle host h node v = Inr h' \<Longrightarrow> same_links h h'"
  by (drule qdt_set_phandle_eq)
    (blast intro: same_links_trans dest: qdt_setprop_cells_links)

lemma qdt_setprop_cells_distinct:
  "heap_props_distinct h \<Longrightarrow> qdt_setprop_cells host h node name_arg vals = Inr (h', p) \<Longrightarrow>
   heap_props_distinct h'"
  unfolding qdt_setprop_cells_def qdt_setprop_cells_arr_def Let_def by (rule qdt_setprop_distinct)

lemma qdt_setprop_u64s_distinct:
  "heap_props_distinct h \<Longrightarrow> qdt_setprop_u64s host h node name_arg vals = Inr (h', p) \<Longrightarrow>
   heap_props_distinct h'"
  unfolding qdt_setprop_u64s_def qdt_setprop_u64s_arr_def Let_def by (rule qdt_setprop_distinct)

lemma qdt_setprop_string_distinct:
  "heap_props_distinct h \<Longrightarrow> qdt_setprop_string h node name_arg val = Inr (h', p) \<Longrightarrow>
   heap_props_distinct h'"
  unfolding qdt_setprop_string_def by (rule qdt_setprop_distinct)

lemma qdt_setprop_dup_distinct:
  "heap_props_distinct h \<Longrightarrow> qdt_setprop_dup h node name_arg oldnode oldname = Inr (h', p) \<Longrightarrow>
   heap_props_distinct h'"
  by (auto simp: qdt_setprop_dup_def split: option.splits dest: qdt_setprop_distinct)

lemma qdt_set_phandle_distinct:
  "heap_props_distinct h \<Longrightarrow> qdt_set_phandle host h node v = Inr h' \<Longrightarrow>
   heap_props_distinct h'"
  by (drule qdt_set_phandle_eq) (blast dest: qdt_setprop_cells_distinct)

lemma qdt_new_node_distinct:
  "heap_props_distinct h \<Longrightarrow> qdt_new_node h nm = Inr (h', a) \<Longrightarrow> heap_props_distinct h'"
  by (auto simp: qdt_new_node_def heap_props_distinct_def props_distinct_def split: if_splits)

lemma qdt_add_subnode_distinct:
  "heap_props_distinct h \<Longrightarrow> par < length h \<Longrightarrow> qdt_add_subnode h par nm = Inr (h', a) \<Longrightarrow>
   heap_props_distinct h'"
  by (auto simp: qdt_add_subnode_def qdt_new_node_def heap_props_distinct_def list_all_iff
        props_distinct_def Let_def nth_append
        split: if_splits dest!: set_update_subset_insert [THEN subsetD])

text \<open>Every call that returns keeps the names of each node's properties distinct.\<close>

lemma api_call_distinct:
  assumes inv: "heap_props_distinct h" and call: "api_call host h c = Some h'"
  shows "heap_props_distinct h'"
proof (cases c)
  case (NewNode nm)
  with call show ?thesis
    by (auto split: sum.splits dest: qdt_new_node_distinct [OF inv])
next
  case (AddSubnode par nm)
  with call show ?thesis
    by (auto split: sum.splits if_splits dest: qdt_add_subnode_distinct [OF inv])
next
  case (SetProp node name_arg val len)
  with call show ?thesis
    by (auto split: sum.splits if_splits dest: qdt_setprop_distinct [OF inv])
next
  case (SetPropString node name_arg val)
  with call show ?thesis
    by (auto split: sum.splits if_splits dest: qdt_setprop_string_distinct [OF inv])
next
  case (SetPropCells node name_arg vals)
  with call show ?thesis
    by (auto split: sum.splits if_splits dest: qdt_setprop_cells_distinct [OF inv])
next
  case (SetPropU64s node name_arg vals)
  with call show ?thesis
    by (auto split: sum.splits if_splits dest: qdt_setprop_u64s_distinct [OF inv])
next
  case (SetPropDup node name_arg oldnode oldname)
  with call show ?thesis
    by (auto split: sum.splits if_splits dest: qdt_setprop_dup_distinct [OF inv])
next
  case (SetPhandle node v)
  with call show ?thesis
    by (auto split: sum.splits if_splits dest: qdt_set_phandle_distinct [OF inv])
next
  case (DelProp node nm)
  with call show ?thesis
    by (auto split: if_splits intro: qdt_delprop_distinct [OF inv])
qed

lemma run_api_distinct:
  "heap_props_distinct h \<Longrightarrow> run_api host h cs = Some h' \<Longrightarrow> heap_props_distinct h'"
proof (induction cs arbitrary: h)
  case Nil
  then show ?case by simp
next
  case (Cons c cs)
  from Cons.prems(2) obtain h1 where c: "api_call host h c = Some h1"
    and r: "run_api host h1 cs = Some h'" by (auto split: option.splits)
  from api_call_distinct [OF Cons.prems(1) c] have "heap_props_distinct h1" .
  from Cons.IH [OF this r] show ?case .
qed


lemma find_filter_snoc:
  "f p = k \<Longrightarrow> find (\<lambda>q. f q = k) (filter (\<lambda>q. f q \<noteq> k) ps @ [p]) = Some p"
  by (induction ps) auto

lemma heap_props_distinct_empty: "heap_props_distinct []"
  by (simp add: heap_props_distinct_def)

text \<open>
  Setting a property twice under the same name, when neither call reads freed memory:
  exactly one property of that name is left on the node; it holds the bytes of the
  second call, it is what \<^verbatim>\<open>qdt_getprop\<close> finds, and it is the last of the node's
  properties, behind the earlier ones of other names in their old order.
\<close>

lemma qdt_setprop_twice_live:
  assumes built: "run_api host [] cs = Some h"
    and node: "node < length h"
    and first: "qdt_setprop h node name1 val1 len1 = Inr (h1, p1)"
    and second: "qdt_setprop h1 node name2 val2 len2 = Inr (h2, p2)"
    and same: "content name2 = content name1"
  shows "filter (\<lambda>q. prop_name q = content name1) (properties (h2 ! node)) = [p2]
     \<and> p2 = \<lparr>prop_name = content name1, prop_len = len2, prop_val = take len2 (content val2)\<rparr>
     \<and> qdt_getprop h2 node (content name1) = Some p2
     \<and> properties (h2 ! node)
         = filter (\<lambda>q. prop_name q \<noteq> content name1) (properties (h ! node)) @ [p2]
     \<and> last (properties (h2 ! node)) = p2"
proof -
  let ?nm = "content name1"
  have inv: "heap_props_distinct h"
    by (rule run_api_distinct [OF heap_props_distinct_empty built])
  have d: "props_distinct (h ! node)" by (rule heap_props_distinct_nth [OF inv node])
  from qdt_setprop_Inr [OF first]
  have f: "setprop_done h node ?nm (content val1) len1 = (h1, p1)" by simp
  from f have h1: "h1 = h[node := (h ! node)\<lparr>properties :=
          filter (\<lambda>q. prop_name q \<noteq> ?nm) (properties (h ! node)) @ [p1]\<rparr>]"
    and p1: "prop_name p1 = ?nm"
    unfolding setprop_done_filter [OF node d] by auto
  have inv1: "heap_props_distinct h1" by (rule qdt_setprop_distinct [OF inv first])
  have node1: "node < length h1" using node h1 by simp
  have d1: "props_distinct (h1 ! node)" by (rule heap_props_distinct_nth [OF inv1 node1])
  from qdt_setprop_Inr [OF second]
  have s: "setprop_done h1 node ?nm (content val2) len2 = (h2, p2)" by (simp add: same)
  from s have p2: "p2 = \<lparr>prop_name = ?nm, prop_len = len2, prop_val = take len2 (content val2)\<rparr>"
    and h2: "h2 = h1[node := (h1 ! node)\<lparr>properties :=
          filter (\<lambda>q. prop_name q \<noteq> ?nm) (properties (h1 ! node)) @ [p2]\<rparr>]"
    unfolding setprop_done_filter [OF node1 d1] by auto
  have props1: "filter (\<lambda>q. prop_name q \<noteq> ?nm) (properties (h1 ! node))
                  = filter (\<lambda>q. prop_name q \<noteq> ?nm) (properties (h ! node))"
    using node by (simp add: h1 p1)
  have props2: "properties (h2 ! node)
                  = filter (\<lambda>q. prop_name q \<noteq> ?nm) (properties (h ! node)) @ [p2]"
    using node1 by (simp add: h2 props1)
  have nm2: "prop_name p2 = ?nm" by (simp add: p2)
  have only: "filter (\<lambda>q. prop_name q = ?nm) (properties (h2 ! node)) = [p2]"
    by (simp add: props2 nm2)
  have get: "qdt_getprop h2 node ?nm = Some p2"
    by (simp add: qdt_getprop_def getprop_impl_def props2 nm2 find_filter_snoc)
  have lst: "last (properties (h2 ! node)) = p2" by (simp add: props2)
  from only p2 get props2 lst show ?thesis by blast
qed

text \<open>In a store that returning calls have built, no node has two properties of one name.\<close>

lemma run_api_props_distinct:
  assumes "run_api host [] cs = Some h" and "n < length h"
  shows "distinct (map prop_name (properties (h ! n)))"
  using heap_props_distinct_nth [OF run_api_distinct [OF heap_props_distinct_empty assms(1)] assms(2)]
  by (simp add: props_distinct_def)

lemmas qdt_eval =
  qdt_new_node_def qdt_new_tree_def qdt_add_subnode_def qdt_setprop_def qdt_delprop_def
  getprop_impl_def qdt_getprop_def qdt_setprop_string_def qdt_setprop_dup_def
  qdt_setprop_cells_def qdt_setprop_cells_arr_def
  qdt_setprop_u64s_def qdt_setprop_u64s_arr_def qdt_set_phandle_def ptr_live_def
  cpu_to_fdt32_def cpu_to_fdt64_def mem_u32_def mem_u64_def be32_def be64_def
  bswap32_def bswap64_def Let_def

text \<open>
  C3. Setting a property twice under the same name does not, for every name and value
  the caller may pass, leave one property with the second value. A new tree is made and
  \<^verbatim>\<open>qdt_setprop(n, "foo", b1, 2)\<close> returns the property \<open>p1\<close>, the one \<^verbatim>\<open>qdt_getprop\<close>
  finds. A second call that is given \<^verbatim>\<open>p1->name\<close> as its name, or \<^verbatim>\<open>p1->val\<close> as its
  value, as \<^verbatim>\<open>qdt_setprop_dup(n, "foo", qdt_getprop(n, "foo"))\<close> does, reads that memory
  after \<^verbatim>\<open>qdt_delprop\<close> has freed it: the name and the bytes of the new property are
  not defined.
\<close>

theorem qdt_setprop_twice_reads_freed:
  "\<exists>h0 n h1 p1.
     qdt_new_tree [] = Inr (h0, n)
     \<and> qdt_setprop h0 n (Caller ''foo'') (Caller [1, 2]) 2 = Inr (h1, p1)
     \<and> qdt_getprop h1 n ''foo'' = Some p1
     \<and> qdt_setprop h1 n (InProp n ''foo'' (prop_name p1)) (Caller [3]) 1 = Inl InvalidRead
     \<and> qdt_setprop h1 n (Caller ''foo'') (InProp n ''foo'' (prop_val p1)) (prop_len p1)
         = Inl InvalidRead
     \<and> qdt_setprop_dup h1 n (Caller ''foo'') n ''foo'' = Inl InvalidRead"
  by (simp add: qdt_eval)


section \<open>Integer properties and byte order\<close>

lemma be32_bswap32: "rev (be32 (bswap32 w)) = be32 w"
  unfolding be32_def bswap32_def
  apply simp
  apply (intro conjI; rule bit_word_eqI)
     apply (auto simp: bit_simps)
  done

lemma be64_bswap64: "rev (be64 (bswap64 w)) = be64 w"
  unfolding be64_def bswap64_def
  apply simp
  apply (intro conjI; rule bit_word_eqI)
     apply (auto simp: bit_simps)
  done

text \<open>\<open>be32\<close> lists the most significant byte first.\<close>

lemma be32_big_endian:
  "w = push_bit 24 (ucast (be32 w ! 0)) OR push_bit 16 (ucast (be32 w ! 1))
       OR push_bit 8 (ucast (be32 w ! 2)) OR ucast (be32 w ! 3)"
proof (rule bit_word_eqI)
  fix n assume "n < LENGTH(32)"
  then have n: "n < 32" by simp
  consider "n < 8" | "8 \<le> n" "n < 16" | "16 \<le> n" "n < 24" | "24 \<le> n"
    by linarith
  then show "bit w n = bit (push_bit 24 (ucast (be32 w ! 0)) OR push_bit 16 (ucast (be32 w ! 1))
       OR push_bit 8 (ucast (be32 w ! 2)) OR ucast (be32 w ! 3) :: 32 word) n"
    using n by cases (auto simp: be32_def bit_simps)
qed

text \<open>So does \<open>be64\<close>.\<close>

lemma be64_big_endian:
  "w = push_bit 56 (ucast (be64 w ! 0)) OR push_bit 48 (ucast (be64 w ! 1))
       OR push_bit 40 (ucast (be64 w ! 2)) OR push_bit 32 (ucast (be64 w ! 3))
       OR push_bit 24 (ucast (be64 w ! 4)) OR push_bit 16 (ucast (be64 w ! 5))
       OR push_bit 8 (ucast (be64 w ! 6)) OR ucast (be64 w ! 7)"
proof (rule bit_word_eqI)
  fix n assume "n < LENGTH(64)"
  then have n: "n < 64" by simp
  consider "n < 8" | "8 \<le> n" "n < 16" | "16 \<le> n" "n < 24" | "24 \<le> n" "n < 32"
    | "32 \<le> n" "n < 40" | "40 \<le> n" "n < 48" | "48 \<le> n" "n < 56" | "56 \<le> n"
    by linarith
  then show "bit w n = bit (push_bit 56 (ucast (be64 w ! 0)) OR push_bit 48 (ucast (be64 w ! 1))
       OR push_bit 40 (ucast (be64 w ! 2)) OR push_bit 32 (ucast (be64 w ! 3))
       OR push_bit 24 (ucast (be64 w ! 4)) OR push_bit 16 (ucast (be64 w ! 5))
       OR push_bit 8 (ucast (be64 w ! 6)) OR ucast (be64 w ! 7) :: 64 word) n"
    using n by cases (auto simp: be64_def bit_simps)
qed

lemma mem_u32_cpu_to_fdt32: "mem_u32 host (cpu_to_fdt32 host w) = be32 w"
  by (cases host) (simp_all add: mem_u32_def cpu_to_fdt32_def be32_bswap32)

lemma mem_u64_cpu_to_fdt64: "mem_u64 host (cpu_to_fdt64 host w) = be64 w"
  by (cases host) (simp_all add: mem_u64_def cpu_to_fdt64_def be64_bswap64)

lemma length_concat_be32: "length (concat (map be32 ws)) = 4 * length ws"
  by (induction ws) (simp_all add: be32_def)

lemma length_concat_be64: "length (concat (map be64 ws)) = 8 * length ws"
  by (induction ws) (simp_all add: be64_def)

lemma swapval_bytes32:
  "map (mem_u32 host \<circ> cpu_to_fdt32 host) ws = map be32 ws"
  by (simp add: mem_u32_cpu_to_fdt32)

lemma swapval_bytes64:
  "map (mem_u64 host \<circ> cpu_to_fdt64 host) ws = map be64 ws"
  by (simp add: mem_u64_cpu_to_fdt64)

lemma qdt_setprop_cells_arr_eq:
  "qdt_setprop_cells_arr host h node name_arg val len =
     qdt_setprop h node name_arg (Caller (concat (map be32 (take len val)))) (4 * len)"
  by (simp add: qdt_setprop_cells_arr_def swapval_bytes32)

lemma qdt_setprop_u64s_arr_eq:
  "qdt_setprop_u64s_arr host h node name_arg val len =
     qdt_setprop h node name_arg (Caller (concat (map be64 (take len val)))) (8 * len)"
  by (simp add: qdt_setprop_u64s_arr_def swapval_bytes64)

lemma setprop_done_snd:
  "snd (setprop_done h node nm val len) = \<lparr>prop_name = nm, prop_len = len, prop_val = take len val\<rparr>"
  by (simp add: setprop_done_def Let_def)

lemma setprop_done_last:
  "node < length h \<Longrightarrow>
   last (properties (fst (setprop_done h node nm val len) ! node))
     = \<lparr>prop_name = nm, prop_len = len, prop_val = take len val\<rparr>"
  by (simp add: setprop_done_def qdt_delprop_def Let_def split: option.splits)

lemma qdt_setprop_result:
  "(case qdt_setprop h node name_arg (Caller bytes) len of
      Inl e \<Rightarrow> e = InvalidRead \<and> points_into name_arg = Some (node, content name_arg)
    | Inr (h', p) \<Rightarrow>
        p = \<lparr>prop_name = content name_arg, prop_len = len, prop_val = take len bytes\<rparr>)"
  by (simp add: qdt_setprop_eq setprop_done_def Let_def)

lemma qdt_setprop_literal:
  "\<exists>h'. qdt_setprop h node (Caller nm) (Caller bytes) len
          = Inr (h', \<lparr>prop_name = nm, prop_len = len, prop_val = take len bytes\<rparr>)"
  by (simp add: qdt_setprop_Caller setprop_done_def Let_def)

text \<open>
  C5. Whatever the byte order of the host, \<^verbatim>\<open>qdt_setprop_cells_\<close> is a call of
  \<^verbatim>\<open>qdt_setprop\<close> on the concatenation, in array order, of the big-endian encodings of
  the first \<open>len\<close> values, four bytes each, held in an array of its own. That
  concatenation is the value of the property it returns, and it returns one whenever
  the name is not read from a property it replaces, as with a literal name;
  \<^verbatim>\<open>qdt_setprop_u64s_\<close> does the same with eight bytes for each value.
\<close>

theorem setprop_cells_u64s_big_endian:
  "qdt_setprop_cells_arr host h node name_arg val len
     = qdt_setprop h node name_arg (Caller (concat (map be32 (take len val)))) (4 * len)
   \<and> (case qdt_setprop_cells_arr host h node name_arg val len of
         Inl e \<Rightarrow> e = InvalidRead \<and> points_into name_arg = Some (node, content name_arg)
       | Inr (h', p) \<Rightarrow>
           p = \<lparr>prop_name = content name_arg, prop_len = 4 * len,
                 prop_val = concat (map be32 (take len val))\<rparr>)
   \<and> (\<exists>h'. qdt_setprop_cells_arr host h node (Caller nm) val len
              = Inr (h', \<lparr>prop_name = nm, prop_len = 4 * len,
                          prop_val = concat (map be32 (take len val))\<rparr>))
   \<and> length (be32 w) = 4
   \<and> qdt_setprop_u64s_arr host h node name_arg dval len
     = qdt_setprop h node name_arg (Caller (concat (map be64 (take len dval)))) (8 * len)
   \<and> (case qdt_setprop_u64s_arr host h node name_arg dval len of
         Inl e \<Rightarrow> e = InvalidRead \<and> points_into name_arg = Some (node, content name_arg)
       | Inr (h', p) \<Rightarrow>
           p = \<lparr>prop_name = content name_arg, prop_len = 8 * len,
                 prop_val = concat (map be64 (take len dval))\<rparr>)
   \<and> (\<exists>h'. qdt_setprop_u64s_arr host h node (Caller nm) dval len
              = Inr (h', \<lparr>prop_name = nm, prop_len = 8 * len,
                          prop_val = concat (map be64 (take len dval))\<rparr>))
   \<and> length (be64 dw) = 8"
proof -
  have t32: "take (4 * len) (concat (map be32 (take len val))) = concat (map be32 (take len val))"
    by (simp add: length_concat_be32)
  have t64: "take (8 * len) (concat (map be64 (take len dval)))
               = concat (map be64 (take len dval))"
    by (simp add: length_concat_be64)
  have c1: "qdt_setprop_cells_arr host h node name_arg val len
     = qdt_setprop h node name_arg (Caller (concat (map be32 (take len val)))) (4 * len)"
    by (rule qdt_setprop_cells_arr_eq)
  have c2: "(case qdt_setprop_cells_arr host h node name_arg val len of
         Inl e \<Rightarrow> e = InvalidRead \<and> points_into name_arg = Some (node, content name_arg)
       | Inr (h', p) \<Rightarrow>
           p = \<lparr>prop_name = content name_arg, prop_len = 4 * len,
                 prop_val = concat (map be32 (take len val))\<rparr>)"
    using qdt_setprop_result [where h = h and node = node and name_arg = name_arg
            and bytes = "concat (map be32 (take len val))" and len = "4 * len"]
    unfolding qdt_setprop_cells_arr_eq t32 .
  have c3: "\<exists>h'. qdt_setprop_cells_arr host h node (Caller nm) val len
              = Inr (h', \<lparr>prop_name = nm, prop_len = 4 * len,
                          prop_val = concat (map be32 (take len val))\<rparr>)"
    using qdt_setprop_literal [of h node nm "concat (map be32 (take len val))" "4 * len"]
    unfolding qdt_setprop_cells_arr_eq t32 .
  have c4: "length (be32 w) = 4" by (simp add: be32_def)
  have d1: "qdt_setprop_u64s_arr host h node name_arg dval len
     = qdt_setprop h node name_arg (Caller (concat (map be64 (take len dval)))) (8 * len)"
    by (rule qdt_setprop_u64s_arr_eq)
  have d2: "(case qdt_setprop_u64s_arr host h node name_arg dval len of
         Inl e \<Rightarrow> e = InvalidRead \<and> points_into name_arg = Some (node, content name_arg)
       | Inr (h', p) \<Rightarrow>
           p = \<lparr>prop_name = content name_arg, prop_len = 8 * len,
                 prop_val = concat (map be64 (take len dval))\<rparr>)"
    using qdt_setprop_result [where h = h and node = node and name_arg = name_arg
            and bytes = "concat (map be64 (take len dval))" and len = "8 * len"]
    unfolding qdt_setprop_u64s_arr_eq t64 .
  have d3: "\<exists>h'. qdt_setprop_u64s_arr host h node (Caller nm) dval len
              = Inr (h', \<lparr>prop_name = nm, prop_len = 8 * len,
                          prop_val = concat (map be64 (take len dval))\<rparr>)"
    using qdt_setprop_literal [of h node nm "concat (map be64 (take len dval))" "8 * len"]
    unfolding qdt_setprop_u64s_arr_eq t64 .
  have d4: "length (be64 dw) = 8" by (simp add: be64_def)
  from c1 c2 c3 c4 d1 d2 d3 d4 show ?thesis by blast
qed

lemma find_append_first: "find P xs = Some x \<Longrightarrow> find P (xs @ ys) = Some x"
  by (induction xs) (auto split: if_splits)

lemma all_ones_32: "(0xFFFFFFFF :: 32 word) = - 1"
  by (simp flip: minus_1_eq_mask add: mask_eq_exp_minus_1)

lemma qdt_setprop_cells_single:
  "qdt_setprop_cells host h node (Caller nm) [v] = Inr (setprop_done h node nm (be32 v) 4)"
  by (simp add: qdt_setprop_cells_def qdt_setprop_cells_arr_eq qdt_setprop_Caller)

text \<open>
  C6. \<^verbatim>\<open>qdt_set_phandle\<close> fails its assertion exactly when the value is 0 or
  \<open>0xFFFFFFFF\<close>. For any other value, on a node of a store built through the interface,
  it succeeds; afterwards the node has a property \<open>phandle\<close> and a property
  \<open>linux,phandle\<close>, both of length 4 and both holding the big-endian encoding of the
  value; they are the last two properties of the node, the other properties, links and
  nodes are unchanged.
\<close>

theorem qdt_set_phandle_spec:
  "((\<exists>e. qdt_set_phandle host h node v = Inl e) \<longleftrightarrow> (v = 0 \<or> v = 0xFFFFFFFF))
   \<and> (run_api host [] cs = Some h \<and> node < length h \<and> v \<noteq> 0 \<and> v \<noteq> 0xFFFFFFFF \<longrightarrow>
        (\<exists>h'. qdt_set_phandle host h node v = Inr h'
           \<and> qdt_getprop h' node ''phandle''
               = Some \<lparr>prop_name = ''phandle'', prop_len = 4, prop_val = be32 v\<rparr>
           \<and> qdt_getprop h' node ''linux,phandle''
               = Some \<lparr>prop_name = ''linux,phandle'', prop_len = 4, prop_val = be32 v\<rparr>
           \<and> properties (h' ! node)
               = filter (\<lambda>q. prop_name q \<noteq> ''linux,phandle'' \<and> prop_name q \<noteq> ''phandle'')
                   (properties (h ! node))
                 @ [\<lparr>prop_name = ''linux,phandle'', prop_len = 4, prop_val = be32 v\<rparr>,
                    \<lparr>prop_name = ''phandle'', prop_len = 4, prop_val = be32 v\<rparr>]
           \<and> length (be32 v) = 4
           \<and> same_links h h'
           \<and> (\<forall>a<length h. a \<noteq> node \<longrightarrow> h' ! a = h ! a)))"
proof (intro conjI impI)
  show "(\<exists>e. qdt_set_phandle host h node v = Inl e) \<longleftrightarrow> (v = 0 \<or> v = 0xFFFFFFFF)"
    by (auto simp: qdt_set_phandle_def all_ones_32 qdt_setprop_cells_single split: prod.splits)
next
  assume a: "run_api host [] cs = Some h \<and> node < length h \<and> v \<noteq> 0 \<and> v \<noteq> 0xFFFFFFFF"
  then have built: "run_api host [] cs = Some h" and node: "node < length h"
    and v: "v \<noteq> 0" "v \<noteq> - 1" by (simp_all add: all_ones_32)
  let ?lp = "\<lparr>prop_name = ''linux,phandle'', prop_len = 4, prop_val = be32 v\<rparr>"
  let ?ph = "\<lparr>prop_name = ''phandle'', prop_len = 4, prop_val = be32 v\<rparr>"
  let ?ps = "properties (h ! node)"
  let ?h1 = "h[node := (h ! node)\<lparr>properties :=
               filter (\<lambda>q. prop_name q \<noteq> ''linux,phandle'') ?ps @ [?lp]\<rparr>]"
  let ?h2 = "?h1[node := (?h1 ! node)\<lparr>properties :=
               filter (\<lambda>q. prop_name q \<noteq> ''phandle'') (properties (?h1 ! node)) @ [?ph]\<rparr>]"
  have inv: "heap_props_distinct h"
    by (rule run_api_distinct [OF heap_props_distinct_empty built])
  have d: "props_distinct (h ! node)" by (rule heap_props_distinct_nth [OF inv node])
  have len: "take 4 (be32 v) = be32 v" by (simp add: be32_def)
  have s1: "setprop_done h node ''linux,phandle'' (be32 v) 4 = (?h1, ?lp)"
    unfolding setprop_done_filter [OF node d] len ..
  have inv1: "heap_props_distinct ?h1"
    using setprop_done_distinct [OF inv, of node "''linux,phandle''" "be32 v" 4] s1 by simp
  have node1: "node < length ?h1" using node by simp
  have d1: "props_distinct (?h1 ! node)" by (rule heap_props_distinct_nth [OF inv1 node1])
  have s2: "setprop_done ?h1 node ''phandle'' (be32 v) 4 = (?h2, ?ph)"
    unfolding setprop_done_filter [OF node1 d1] len ..
  have r: "qdt_set_phandle host h node v = Inr ?h2"
    using v by (simp add: qdt_set_phandle_def qdt_setprop_cells_single s1 s2)
  have props: "properties (?h2 ! node)
               = filter (\<lambda>q. prop_name q \<noteq> ''linux,phandle'' \<and> prop_name q \<noteq> ''phandle'') ?ps
                 @ [?lp, ?ph]"
    using node by simp
  have g1: "qdt_getprop ?h2 node ''phandle'' = Some ?ph"
  proof -
    have "find (\<lambda>q. prop_name q = ''phandle'')
            ((filter (\<lambda>q. prop_name q \<noteq> ''phandle'')
               (filter (\<lambda>q. prop_name q \<noteq> ''linux,phandle'') ?ps @ [?lp])) @ [?ph]) = Some ?ph"
      by (rule find_filter_snoc) simp
    then show ?thesis using node by (simp add: qdt_getprop_def getprop_impl_def)
  qed
  have g2: "qdt_getprop ?h2 node ''linux,phandle'' = Some ?lp"
  proof -
    have "find (\<lambda>q. prop_name q = ''linux,phandle'')
            (filter (\<lambda>q. prop_name q \<noteq> ''linux,phandle'')
               (filter (\<lambda>q. prop_name q \<noteq> ''phandle'') ?ps) @ [?lp]) = Some ?lp"
      by (rule find_filter_snoc) simp
    then have "find (\<lambda>q. prop_name q = ''linux,phandle'')
            ((filter (\<lambda>q. prop_name q \<noteq> ''linux,phandle'')
               (filter (\<lambda>q. prop_name q \<noteq> ''phandle'') ?ps) @ [?lp]) @ [?ph]) = Some ?lp"
      by (rule find_append_first)
    moreover have "filter (\<lambda>q. prop_name q \<noteq> ''linux,phandle'' \<and> prop_name q \<noteq> ''phandle'') ?ps
       = filter (\<lambda>q. prop_name q \<noteq> ''linux,phandle'') (filter (\<lambda>q. prop_name q \<noteq> ''phandle'') ?ps)"
      by (simp add: conj_commute)
    ultimately show ?thesis using props by (simp add: qdt_getprop_def getprop_impl_def)
  qed
  have links: "same_links h ?h2"
    by (rule same_links_trans [OF same_links_update same_links_update])
  have others: "\<forall>a<length h. a \<noteq> node \<longrightarrow> ?h2 ! a = h ! a" by simp
  have l4: "length (be32 v) = 4" by (simp add: be32_def)
  show "\<exists>h'. qdt_set_phandle host h node v = Inr h'
           \<and> qdt_getprop h' node ''phandle'' = Some ?ph
           \<and> qdt_getprop h' node ''linux,phandle'' = Some ?lp
           \<and> properties (h' ! node)
               = filter (\<lambda>q. prop_name q \<noteq> ''linux,phandle'' \<and> prop_name q \<noteq> ''phandle'') ?ps
                 @ [?lp, ?ph]
           \<and> length (be32 v) = 4
           \<and> same_links h h'
           \<and> (\<forall>a<length h. a \<noteq> node \<longrightarrow> h' ! a = h ! a)"
    using r g1 g2 props l4 links others by blast
qed


theorem setprop_cells_u64s_big_endian_witness:
  "(\<exists>h'. qdt_setprop_cells_arr LittleEndian
            [\<lparr>name = [], parent = None, properties = [], children = []\<rparr>] 0 (Caller ''reg'')
            [0x12345678, 1] 2
          = Inr (h', \<lparr>prop_name = ''reg'', prop_len = 4 * 2,
                      prop_val = [0x12, 0x34, 0x56, 0x78, 0, 0, 0, 1]\<rparr>))
   \<and> (\<exists>h'. qdt_setprop_u64s_arr BigEndian
            [\<lparr>name = [], parent = None, properties = [], children = []\<rparr>] 0 (Caller ''reg'')
            [0x0102030405060708] 1
          = Inr (h', \<lparr>prop_name = ''reg'', prop_len = 8 * 1,
                      prop_val = [1, 2, 3, 4, 5, 6, 7, 8]\<rparr>))"
proof -
  let ?h = "[\<lparr>name = [], parent = None, properties = [], children = []\<rparr>]"
  have e32: "concat (map be32 (take 2 [0x12345678, 1])) = [0x12, 0x34, 0x56, 0x78, 0, 0, 0, 1]"
    by (simp add: be32_def)
  have e64: "concat (map be64 (take 1 [0x0102030405060708])) = [1, 2, 3, 4, 5, 6, 7, 8]"
    by (simp add: be64_def)
  have c: "\<exists>h'. qdt_setprop_cells_arr LittleEndian ?h 0 (Caller ''reg'') [0x12345678, 1] 2
          = Inr (h', \<lparr>prop_name = ''reg'', prop_len = 4 * 2,
                      prop_val = [0x12, 0x34, 0x56, 0x78, 0, 0, 0, 1]\<rparr>)"
    using setprop_cells_u64s_big_endian
            [where host = LittleEndian and h = ?h and node = 0 and nm = "''reg''"
               and val = "[0x12345678, 1]" and len = 2 and name_arg = "Caller ''reg''"
               and w = 0 and dval = "[]" and dw = 0]
    unfolding e32 by (elim conjE)
  have d: "\<exists>h'. qdt_setprop_u64s_arr BigEndian ?h 0 (Caller ''reg'') [0x0102030405060708] 1
          = Inr (h', \<lparr>prop_name = ''reg'', prop_len = 8 * 1,
                      prop_val = [1, 2, 3, 4, 5, 6, 7, 8]\<rparr>)"
    using setprop_cells_u64s_big_endian
            [where host = BigEndian and h = ?h and node = 0 and nm = "''reg''"
               and dval = "[0x0102030405060708]" and len = 1 and name_arg = "Caller ''reg''"
               and w = 0 and val = "[]" and dw = 0]
    unfolding e64 by (elim conjE)
  show ?thesis using c d by (rule conjI)
qed

theorem qdt_set_phandle_spec_witness:
  "run_api LittleEndian [] [NewNode []]
     = Some [\<lparr>name = [], parent = None, properties = [], children = []\<rparr>]
   \<and> (0::nat) < length [\<lparr>name = [], parent = None, properties = [], children = []\<rparr>]
   \<and> (5 :: 32 word) \<noteq> 0 \<and> (5 :: 32 word) \<noteq> 0xFFFFFFFF
   \<and> (\<exists>h'. qdt_set_phandle LittleEndian
               [\<lparr>name = [], parent = None, properties = [], children = []\<rparr>] 0 5 = Inr h'
         \<and> qdt_getprop h' 0 ''phandle''
             = Some \<lparr>prop_name = ''phandle'', prop_len = 4, prop_val = [0, 0, 0, 5]\<rparr>
         \<and> qdt_getprop h' 0 ''linux,phandle''
             = Some \<lparr>prop_name = ''linux,phandle'', prop_len = 4, prop_val = [0, 0, 0, 5]\<rparr>)
   \<and> (\<exists>e. qdt_set_phandle LittleEndian
               [\<lparr>name = [], parent = None, properties = [], children = []\<rparr>] 0 0 = Inl e)
   \<and> (\<exists>e. qdt_set_phandle LittleEndian
               [\<lparr>name = [], parent = None, properties = [], children = []\<rparr>] 0 0xFFFFFFFF
             = Inl e)"
proof -
  let ?h = "[\<lparr>name = [], parent = None, properties = [], children = []\<rparr>]"
  have built: "run_api LittleEndian [] [NewNode []] = Some ?h"
    by (simp add: qdt_new_node_def)
  have five: "(5 :: 32 word) \<noteq> 0 \<and> (5 :: 32 word) \<noteq> 0xFFFFFFFF" by simp
  have be: "be32 5 = [0, 0, 0, 5]" by (simp add: be32_def)
  from qdt_set_phandle_spec [of LittleEndian ?h 0 5 "[NewNode []]"] built five
  have ok: "\<exists>h'. qdt_set_phandle LittleEndian ?h 0 5 = Inr h'
         \<and> qdt_getprop h' 0 ''phandle''
             = Some \<lparr>prop_name = ''phandle'', prop_len = 4, prop_val = [0, 0, 0, 5]\<rparr>
         \<and> qdt_getprop h' 0 ''linux,phandle''
             = Some \<lparr>prop_name = ''linux,phandle'', prop_len = 4, prop_val = [0, 0, 0, 5]\<rparr>"
    unfolding be by auto
  from qdt_set_phandle_spec [of LittleEndian ?h 0 0 "[NewNode []]"]
  have z: "\<exists>e. qdt_set_phandle LittleEndian ?h 0 0 = Inl e" by simp
  from qdt_set_phandle_spec [of LittleEndian ?h 0 "0xFFFFFFFF" "[NewNode []]"]
  have m: "\<exists>e. qdt_set_phandle LittleEndian ?h 0 0xFFFFFFFF = Inl e" by simp
  show ?thesis using built five ok z m by simp
qed

section \<open>Path resolution\<close>

lemma get_subnode_loop_find:
  "namelen \<le> length nm \<Longrightarrow>
   get_subnode_loop h cs nm namelen = find (\<lambda>c. name (h ! c) = take namelen nm) cs"
proof (induction cs)
  case Nil
  then show ?case by simp
next
  case (Cons c cs)
  from Cons.prems have "(length (name (h ! c)) = namelen
          \<and> take namelen (name (h ! c)) = take namelen nm)
        \<longleftrightarrow> name (h ! c) = take namelen nm"
    by auto
  with Cons show ?case by simp
qed

lemma get_subnode_child_named:
  "namelen \<le> length nm \<Longrightarrow> CHR ''/'' \<notin> set (take namelen nm) \<Longrightarrow>
   get_subnode h node nm namelen = Inr (child_named h node (take namelen nm))"
  by (simp add: get_subnode_def child_named_def get_subnode_loop_find)

lemma takeWhile_no_slash:
  "CHR ''/'' \<notin> set xs \<Longrightarrow> takeWhile (\<lambda>c. c \<noteq> CHR ''/'') xs = xs"
  by (induction xs) auto

lemma seglen_of_no_slash: "CHR ''/'' \<notin> set path \<Longrightarrow> seglen_of path = length path"
  by (simp add: seglen_of_def takeWhile_no_slash)

lemma seglen_of_slash:
  "CHR ''/'' \<notin> set seg \<Longrightarrow> seglen_of (seg @ CHR ''/'' # rest) = length seg"
  by (simp add: seglen_of_def takeWhile_tail takeWhile_no_slash)

lemma get_node_relative_last:
  assumes "CHR ''/'' \<notin> set path"
  shows "qdt_get_node_relative h node path = Inr (child_named h node path)"
proof -
  have "get_subnode h node path (length path) = Inr (child_named h node path)"
    using get_subnode_child_named [of "length path" path h node] assms by simp
  then show ?thesis
    using assms
    by (subst qdt_get_node_relative.simps)
       (simp add: seglen_of_no_slash split: option.splits)
qed

lemma get_node_relative_step:
  assumes "CHR ''/'' \<notin> set seg"
  shows "qdt_get_node_relative h node (seg @ CHR ''/'' # rest) =
           (case child_named h node seg of
              None \<Rightarrow> Inr None
            | Some child \<Rightarrow> qdt_get_node_relative h child rest)"
proof -
  have "get_subnode h node (seg @ CHR ''/'' # rest) (length seg) = Inr (child_named h node seg)"
    using get_subnode_child_named [of "length seg" "seg @ CHR ''/'' # rest" h node] assms
    by simp
  then show ?thesis
    using assms
    by (subst qdt_get_node_relative.simps)
       (simp add: seglen_of_slash split: option.splits)
qed

lemma segments_no_slash: "CHR ''/'' \<notin> set seg \<Longrightarrow> segments seg = [seg]"
  by (induction seg) (auto split: list.splits)

lemma segments_slash:
  "CHR ''/'' \<notin> set seg \<Longrightarrow> segments (seg @ CHR ''/'' # rest) = seg # segments rest"
  by (induction seg) (auto split: list.splits)

lemma get_node_relative_resolve:
  "qdt_get_node_relative h node path = Inr (resolve h node (segments path))"
proof (induction "length path" arbitrary: path node rule: less_induct)
  case less
  show ?case
  proof (cases "CHR ''/'' \<in> set path")
    case False
    then show ?thesis
      by (simp add: get_node_relative_last segments_no_slash split: option.splits)
  next
    case True
    then obtain seg rest where p: "path = seg @ CHR ''/'' # rest" and s: "CHR ''/'' \<notin> set seg"
      by (auto dest: split_list_first)
    have "length rest < length path" by (simp add: p)
    then have "\<And>child. qdt_get_node_relative h child rest
                 = Inr (resolve h child (segments rest))"
      by (rule less)
    then show ?thesis
      by (simp add: p get_node_relative_step [OF s] segments_slash [OF s] split: option.splits)
  qed
qed

lemma segments_length: "length (segments path) = Suc (count_list path CHR ''/'')"
  by (induction path) (auto split: list.splits)

lemma segments_join:
  "concat (map (\<lambda>seg. CHR ''/'' # seg) (segments path)) = CHR ''/'' # path"
  by (induction path) (auto split: list.splits)


lemma tree_shaped_empty: "tree_shaped []"
  by (simp add: tree_shaped_def)

lemma tree_shaped_same_links:
  assumes l: "same_links h h'" and t: "tree_shaped h"
  shows "tree_shaped h'"
  unfolding tree_shaped_def
proof (intro allI impI)
  fix p assume "p < length h'"
  then have p: "p < length h" by (simp add: same_links_nth(1) [OF l])
  have c: "children (h' ! p) = children (h ! p)" by (rule same_links_nth(4) [OF l p])
  from t have "\<forall>p<length h. distinct (children (h ! p)) \<and>
        (\<forall>c\<in>set (children (h ! p)). p < c \<and> c < length h \<and> parent (h ! c) = Some p)"
    unfolding tree_shaped_def .
  with p have d: "distinct (children (h ! p))"
    and k: "\<forall>c\<in>set (children (h ! p)). p < c \<and> c < length h \<and> parent (h ! c) = Some p"
    by blast+
  have "p < x \<and> x < length h' \<and> parent (h' ! x) = Some p"
    if "x \<in> set (children (h' ! p))" for x
  proof -
    from that have "x \<in> set (children (h ! p))" by (simp only: c)
    with k have x: "p < x" "x < length h" "parent (h ! x) = Some p" by blast+
    from same_links_nth(3) [OF l x(2)] x(3) have "parent (h' ! x) = Some p" by simp
    moreover have "x < length h'" using x(2) by (simp only: same_links_nth(1) [OF l])
    ultimately show ?thesis using x(1) by blast
  qed
  moreover have "distinct (children (h' ! p))" using d by (simp only: c)
  ultimately show "distinct (children (h' ! p)) \<and>
        (\<forall>c\<in>set (children (h' ! p)). p < c \<and> c < length h' \<and> parent (h' ! c) = Some p)"
    by blast
qed


section \<open>The shape of a store built through the interface\<close>

lemma tree_shapedD:
  assumes "tree_shaped h" and "p < length h"
  shows "distinct (children (h ! p))"
    and "c \<in> set (children (h ! p)) \<Longrightarrow> p < c"
    and "c \<in> set (children (h ! p)) \<Longrightarrow> c < length h"
    and "c \<in> set (children (h ! p)) \<Longrightarrow> parent (h ! c) = Some p"
proof -
  from assms(1) have "\<forall>p<length h. distinct (children (h ! p)) \<and>
        (\<forall>c\<in>set (children (h ! p)). p < c \<and> c < length h \<and> parent (h ! c) = Some p)"
    unfolding tree_shaped_def .
  with assms(2) have a: "distinct (children (h ! p)) \<and>
        (\<forall>c\<in>set (children (h ! p)). p < c \<and> c < length h \<and> parent (h ! c) = Some p)"
    by blast
  from a show "distinct (children (h ! p))" by blast
  from a show "c \<in> set (children (h ! p)) \<Longrightarrow> p < c" by blast
  from a show "c \<in> set (children (h ! p)) \<Longrightarrow> c < length h" by blast
  from a show "c \<in> set (children (h ! p)) \<Longrightarrow> parent (h ! c) = Some p" by blast
qed

lemma tree_shapedI:
  assumes "\<And>p. p < length h \<Longrightarrow> distinct (children (h ! p))"
    and "\<And>p c. p < length h \<Longrightarrow> c \<in> set (children (h ! p)) \<Longrightarrow>
            p < c \<and> c < length h \<and> parent (h ! c) = Some p"
  shows "tree_shaped h"
  unfolding tree_shaped_def using assms by blast

lemma tree_shaped_new_node:
  assumes t: "tree_shaped h" and n: "qdt_new_node h nm = Inr (h', a)"
  shows "tree_shaped h'"
proof -
  let ?new = "\<lparr>name = nm, parent = None, properties = [], children = []\<rparr>"
  from n have h': "h' = h @ [?new]"
    by (auto simp: qdt_new_node_def split: if_splits)
  have len: "length h' = Suc (length h)" by (simp add: h')
  have at_new: "h' ! length h = ?new" by (simp add: h')
  have at_old: "\<And>p. p < length h \<Longrightarrow> h' ! p = h ! p" by (simp add: h' nth_append)
  show ?thesis
  proof (rule tree_shapedI)
    fix p assume "p < length h'"
    then have "p < length h \<or> p = length h" using len by (simp add: less_Suc_eq)
    then show "distinct (children (h' ! p))"
      using tree_shapedD(1) [OF t] by (auto simp: at_new at_old)
  next
    fix p c assume p: "p < length h'" and c: "c \<in> set (children (h' ! p))"
    from p have "p < length h \<or> p = length h" using len by (simp add: less_Suc_eq)
    then have p': "p < length h" using c by (auto simp: at_new)
    with c have c': "c \<in> set (children (h ! p))" by (simp add: at_old)
    note d = tree_shapedD(2-4) [OF t p' c']
    from d(2) have "h' ! c = h ! c" by (rule at_old)
    with d show "p < c \<and> c < length h' \<and> parent (h' ! c) = Some p" by (simp add: len)
  qed
qed

lemma tree_shaped_add_subnode:
  assumes t: "tree_shaped h" and par: "par < length h"
    and n: "qdt_add_subnode h par nm = Inr (h', a)"
  shows "tree_shaped h'"
proof -
  let ?new = "\<lparr>name = nm, parent = Some par, properties = [], children = []\<rparr>"
  let ?par = "(h ! par)\<lparr>children := children (h ! par) @ [length h]\<rparr>"
  from n par have h': "h' = (h @ [?new])[par := ?par]"
    by (auto simp: qdt_add_subnode_def qdt_new_node_def Let_def nth_append split: if_splits)
  have len: "length h' = Suc (length h)" by (simp add: h')
  have at_new: "h' ! length h = ?new" using par by (simp add: h')
  have at_par: "h' ! par = ?par" using par by (simp add: h')
  have at_old: "\<And>p. p < length h \<Longrightarrow> p \<noteq> par \<Longrightarrow> h' ! p = h ! p"
    by (simp add: h' nth_append)
  have old_parent: "parent (h' ! p) = parent (h ! p)" if "p < length h" for p
  proof (cases "p = par")
    case True
    then show ?thesis by (simp add: at_par)
  next
    case False
    with that show ?thesis by (simp add: at_old)
  qed
  have old_children: "children (h' ! p) = children (h ! p)" if "p < length h" "p \<noteq> par" for p
    using that by (simp add: at_old)
  show ?thesis
  proof (rule tree_shapedI)
    fix p assume "p < length h'"
    then consider "p = length h" | "p = par" | "p < length h" "p \<noteq> par"
      using len by (auto simp: less_Suc_eq)
    then show "distinct (children (h' ! p))"
    proof cases
      case 1
      then show ?thesis by (simp add: at_new)
    next
      case 2
      have "length h \<notin> set (children (h ! par))"
        using tree_shapedD(3) [OF t par, of "length h"] by blast
      with tree_shapedD(1) [OF t par] show ?thesis by (simp add: 2 at_par)
    next
      case 3
      with tree_shapedD(1) [OF t 3(1)] show ?thesis by (simp add: old_children)
    qed
  next
    fix p c assume "p < length h'" and c: "c \<in> set (children (h' ! p))"
    then consider "p = length h" | "p = par" | "p < length h" "p \<noteq> par"
      using len by (auto simp: less_Suc_eq)
    then show "p < c \<and> c < length h' \<and> parent (h' ! c) = Some p"
    proof cases
      case 1
      with c show ?thesis by (simp add: at_new)
    next
      case 2
      from c have "c \<in> set (children (h ! par)) \<or> c = length h" by (auto simp: 2 at_par)
      then show ?thesis
      proof
        assume c': "c \<in> set (children (h ! par))"
        note d = tree_shapedD(2-4) [OF t par c']
        from d show ?thesis by (simp add: 2 len old_parent)
      next
        assume "c = length h"
        with par show ?thesis by (simp add: 2 len at_new)
      qed
    next
      case 3
      from c 3 have c': "c \<in> set (children (h ! p))" by (simp add: old_children)
      note d = tree_shapedD(2-4) [OF t 3(1) c']
      from d show ?thesis by (simp add: len old_parent)
    qed
  qed
qed

lemma api_call_same_links_or_node:
  assumes "api_call host h c = Some h'"
  shows "same_links h h'
     \<or> (\<exists>nm a. qdt_new_node h nm = Inr (h', a))
     \<or> (\<exists>par nm a. par < length h \<and> qdt_add_subnode h par nm = Inr (h', a))"
proof (cases c)
  case (NewNode nm)
  with assms show ?thesis by (auto split: sum.splits)
next
  case (AddSubnode par nm)
  with assms show ?thesis by (auto split: sum.splits if_splits)
next
  case (SetProp node name_arg val len)
  with assms obtain p where "qdt_setprop h node name_arg val len = Inr (h', p)"
    by (auto split: if_splits sum.splits)
  then show ?thesis by (simp add: qdt_setprop_links)
next
  case (SetPropString node name_arg val)
  with assms obtain p where "qdt_setprop_string h node name_arg val = Inr (h', p)"
    by (auto split: if_splits sum.splits)
  then show ?thesis by (simp add: qdt_setprop_string_links)
next
  case (SetPropCells node name_arg vals)
  with assms obtain p where "qdt_setprop_cells host h node name_arg vals = Inr (h', p)"
    by (auto split: if_splits sum.splits)
  then show ?thesis by (simp add: qdt_setprop_cells_links)
next
  case (SetPropU64s node name_arg vals)
  with assms obtain p where "qdt_setprop_u64s host h node name_arg vals = Inr (h', p)"
    by (auto split: if_splits sum.splits)
  then show ?thesis by (simp add: qdt_setprop_u64s_links)
next
  case (SetPropDup node name_arg oldnode oldname)
  with assms obtain p where "qdt_setprop_dup h node name_arg oldnode oldname = Inr (h', p)"
    by (auto split: if_splits sum.splits)
  then show ?thesis by (simp add: qdt_setprop_dup_links)
next
  case (SetPhandle node v)
  with assms have "qdt_set_phandle host h node v = Inr h'"
    by (auto split: if_splits sum.splits)
  then show ?thesis by (simp add: qdt_set_phandle_links)
next
  case (DelProp node nm)
  with assms have "h' = qdt_delprop h node nm" by (auto split: if_splits)
  then show ?thesis by (simp add: qdt_delprop_links)
qed

lemma api_call_tree_shaped:
  assumes "tree_shaped h" and "api_call host h c = Some h'"
  shows "tree_shaped h'"
  using api_call_same_links_or_node [OF assms(2)] assms(1)
  by (blast intro: tree_shaped_same_links tree_shaped_new_node tree_shaped_add_subnode)

lemma run_api_tree_shaped:
  "tree_shaped h \<Longrightarrow> run_api host h cs = Some h' \<Longrightarrow> tree_shaped h'"
proof (induction cs arbitrary: h)
  case Nil
  then show ?case by simp
next
  case (Cons c cs)
  from Cons.prems(2) obtain h1 where c: "api_call host h c = Some h1"
    and r: "run_api host h1 cs = Some h'" by (auto split: option.splits)
  from api_call_tree_shaped [OF Cons.prems(1) c] have "tree_shaped h1" .
  from Cons.IH [OF this r] show ?case .
qed

lemma child_named_in_children:
  "child_named h node seg = Some c \<Longrightarrow> c \<in> set (children (h ! node)) \<and> name (h ! c) = seg"
  by (auto simp: child_named_def find_Some_iff)

section \<open>Resolving paths\<close>

text \<open>
  C4. \<^verbatim>\<open>qdt_get_node_relative\<close> resolves the segments of the path one after the other,
  each by the first direct child whose name is the segment (\<^verbatim>\<open>get_subnode\<close> compares
  length and bytes). For a segment \<open>seg\<close> without separator: alone, it is looked up among
  the children of the node; followed by a separator and a rest, the lookup of \<open>seg\<close>
  either fails, and the result is not-found whatever the rest is, or gives the child
  from which the rest is resolved; when the rest is empty (the path ends in the
  separator) the last lookup is for a child with the empty name. No assertion fails.
\<close>

theorem get_node_relative_segments:
  "qdt_get_node_relative h node path = Inr (resolve h node (segments path))
   \<and> (CHR ''/'' \<notin> set seg \<longrightarrow>
        qdt_get_node_relative h node seg = Inr (child_named h node seg)
        \<and> qdt_get_node_relative h node (seg @ CHR ''/'' # rest)
            = (case child_named h node seg of
                 None \<Rightarrow> Inr None
               | Some child \<Rightarrow> qdt_get_node_relative h child rest)
        \<and> (child_named h node seg = None \<longrightarrow>
             qdt_get_node_relative h node (seg @ CHR ''/'' # rest) = Inr None)
        \<and> qdt_get_node_relative h node (seg @ ''/'')
            = (case child_named h node seg of
                 None \<Rightarrow> Inr None
               | Some child \<Rightarrow> Inr (child_named h child [])))
   \<and> (namelen \<le> length nm \<and> CHR ''/'' \<notin> set (take namelen nm) \<longrightarrow>
        get_subnode h node nm namelen
          = Inr (find (\<lambda>c. length (name (h ! c)) = namelen \<and> name (h ! c) = take namelen nm)
                   (children (h ! node))))"
proof (intro conjI impI)
  show "qdt_get_node_relative h node path = Inr (resolve h node (segments path))"
    by (rule get_node_relative_resolve)
next
  assume s: "CHR ''/'' \<notin> set seg"
  show "qdt_get_node_relative h node seg = Inr (child_named h node seg)"
    by (rule get_node_relative_last [OF s])
  show "qdt_get_node_relative h node (seg @ CHR ''/'' # rest)
            = (case child_named h node seg of
                 None \<Rightarrow> Inr None
               | Some child \<Rightarrow> qdt_get_node_relative h child rest)"
    by (rule get_node_relative_step [OF s])
  show "qdt_get_node_relative h node (seg @ CHR ''/'' # rest) = Inr None"
    if "child_named h node seg = None"
    using that by (simp add: get_node_relative_step [OF s])
  show "qdt_get_node_relative h node (seg @ ''/'')
            = (case child_named h node seg of
                 None \<Rightarrow> Inr None
               | Some child \<Rightarrow> Inr (child_named h child []))"
    by (simp add: get_node_relative_step [OF s] get_node_relative_last split: option.splits)
next
  assume a: "namelen \<le> length nm \<and> CHR ''/'' \<notin> set (take namelen nm)"
  then have l: "namelen \<le> length nm" by simp
  have "(\<lambda>c. length (name (h ! c)) = namelen \<and> name (h ! c) = take namelen nm)
        = (\<lambda>c. name (h ! c) = take namelen nm)"
    using l by auto
  then show "get_subnode h node nm namelen
          = Inr (find (\<lambda>c. length (name (h ! c)) = namelen \<and> name (h ! c) = take namelen nm)
                   (children (h ! node)))"
    using a by (simp add: get_subnode_child_named child_named_def)
qed

text \<open>
  C10. For a node without parent, \<^verbatim>\<open>qdt_get_node\<close> on the path \<open>/\<close> looks among the
  node's children for one with the empty name, and gives not-found when there is none.
  In a store built through the interface it never gives the node itself. On the tree
  just made by \<^verbatim>\<open>qdt_new_tree\<close> it gives not-found.
\<close>

theorem get_node_root_path:
  "(parent (h ! root) = None \<longrightarrow> qdt_get_node h root ''/'' = Inr (child_named h root []))
   \<and> (parent (h ! root) = None \<and> child_named h root [] = None \<longrightarrow>
        qdt_get_node h root ''/'' = Inr None)
   \<and> (run_api host [] cs = Some h \<and> root < length h \<and> parent (h ! root) = None \<longrightarrow>
        qdt_get_node h root ''/'' \<noteq> Inr (Some root))
   \<and> (qdt_new_tree h0 = Inr (h1, root1) \<longrightarrow> qdt_get_node h1 root1 ''/'' = Inr None)"
proof (intro conjI impI)
  have g: "qdt_get_node h root ''/'' = Inr (child_named h root [])"
    if "parent (h ! root) = None" for h root
    using that by (simp add: qdt_get_node_def get_node_relative_last)
  show "qdt_get_node h root ''/'' = Inr (child_named h root [])" if "parent (h ! root) = None"
    using that by (rule g)
  show "qdt_get_node h root ''/'' = Inr None"
    if "parent (h ! root) = None \<and> child_named h root [] = None"
    using that by (simp add: g)
  show "qdt_get_node h root ''/'' \<noteq> Inr (Some root)"
    if a: "run_api host [] cs = Some h \<and> root < length h \<and> parent (h ! root) = None"
  proof
    assume r: "qdt_get_node h root ''/'' = Inr (Some root)"
    from a have t: "tree_shaped h" by (blast intro: run_api_tree_shaped [OF tree_shaped_empty])
    from a have root: "root < length h" and par: "parent (h ! root) = None" by simp_all
    from r g [OF par] have "child_named h root [] = Some root" by simp
    then have "root \<in> set (children (h ! root))" by (simp add: child_named_in_children)
    from tree_shapedD(2) [OF t root this] show False by simp
  qed
  show "qdt_get_node h1 root1 ''/'' = Inr None" if n: "qdt_new_tree h0 = Inr (h1, root1)"
  proof -
    from n have "h1 ! root1 = \<lparr>name = [], parent = None, properties = [], children = []\<rparr>"
      by (auto simp: qdt_new_tree_def qdt_new_node_def)
    then show ?thesis by (simp add: g child_named_def)
  qed
qed


theorem get_node_relative_segments_witness:
  "run_api LittleEndian []
      [NewNode [], AddSubnode 0 ''a'', AddSubnode 1 ''b'', AddSubnode 1 []]
     = Some [\<lparr>name = [], parent = None, properties = [], children = [1]\<rparr>,
             \<lparr>name = ''a'', parent = Some 0, properties = [], children = [2, 3]\<rparr>,
             \<lparr>name = ''b'', parent = Some 1, properties = [], children = []\<rparr>,
             \<lparr>name = [], parent = Some 1, properties = [], children = []\<rparr>]
   \<and> CHR ''/'' \<notin> set ''a''
   \<and> qdt_get_node_relative
         [\<lparr>name = [], parent = None, properties = [], children = [1]\<rparr>,
          \<lparr>name = ''a'', parent = Some 0, properties = [], children = [2, 3]\<rparr>,
          \<lparr>name = ''b'', parent = Some 1, properties = [], children = []\<rparr>,
          \<lparr>name = [], parent = Some 1, properties = [], children = []\<rparr>] 0 ''a/b''
       = Inr (Some 2)
   \<and> qdt_get_node_relative
         [\<lparr>name = [], parent = None, properties = [], children = [1]\<rparr>,
          \<lparr>name = ''a'', parent = Some 0, properties = [], children = [2, 3]\<rparr>,
          \<lparr>name = ''b'', parent = Some 1, properties = [], children = []\<rparr>,
          \<lparr>name = [], parent = Some 1, properties = [], children = []\<rparr>] 0 ''a/''
       = Inr (Some 3)
   \<and> qdt_get_node_relative
         [\<lparr>name = [], parent = None, properties = [], children = [1]\<rparr>,
          \<lparr>name = ''a'', parent = Some 0, properties = [], children = [2, 3]\<rparr>,
          \<lparr>name = ''b'', parent = Some 1, properties = [], children = []\<rparr>,
          \<lparr>name = [], parent = Some 1, properties = [], children = []\<rparr>] 0 ''x/b''
       = Inr None
   \<and> qdt_get_node_relative
         [\<lparr>name = [], parent = None, properties = [], children = [1]\<rparr>,
          \<lparr>name = ''a'', parent = Some 0, properties = [], children = [2, 3]\<rparr>,
          \<lparr>name = ''b'', parent = Some 1, properties = [], children = []\<rparr>,
          \<lparr>name = [], parent = Some 1, properties = [], children = []\<rparr>] 0 ''a/b/c''
       = Inr None
   \<and> get_subnode
         [\<lparr>name = [], parent = None, properties = [], children = [1]\<rparr>,
          \<lparr>name = ''a'', parent = Some 0, properties = [], children = [2, 3]\<rparr>,
          \<lparr>name = ''b'', parent = Some 1, properties = [], children = []\<rparr>,
          \<lparr>name = [], parent = Some 1, properties = [], children = []\<rparr>] 1 ''b/c'' 1
       = Inr (Some 2)"
proof -
  let ?H = "[\<lparr>name = [], parent = None, properties = [], children = [1]\<rparr>,
             \<lparr>name = ''a'', parent = Some 0, properties = [], children = [2, 3]\<rparr>,
             \<lparr>name = ''b'', parent = Some 1, properties = [], children = []\<rparr>,
             \<lparr>name = [], parent = Some 1, properties = [], children = []\<rparr>]"
  have built: "run_api LittleEndian []
      [NewNode [], AddSubnode 0 ''a'', AddSubnode 1 ''b'', AddSubnode 1 []] = Some ?H"
    by (simp add: qdt_new_node_def qdt_add_subnode_def Let_def)
  have s: "CHR ''/'' \<notin> set ''a''" by simp
  have c0: "child_named ?H 0 ''a'' = Some 1" by (simp add: child_named_def)
  have c1: "child_named ?H 1 ''b'' = Some 2" by (simp add: child_named_def)
  have c2: "child_named ?H 1 [] = Some 3" by (simp add: child_named_def)
  have c3: "child_named ?H 0 ''x'' = None" by (simp add: child_named_def)
  have c4: "child_named ?H 2 ''c'' = None" by (simp add: child_named_def)
  have r1: "qdt_get_node_relative ?H 0 ''a/b'' = Inr (Some 2)"
    using get_node_relative_segments [of ?H 0 "''a/b''" "''a''" "''b''" 0 "[]"]
      get_node_relative_segments [of ?H 1 "''b''" "''b''" "[]" 0 "[]"] s c0 c1
    by simp
  have r2: "qdt_get_node_relative ?H 0 ''a/'' = Inr (Some 3)"
    using get_node_relative_segments [of ?H 0 "''a/''" "''a''" "[]" 0 "[]"] s c0 c2
    by simp
  have r3: "qdt_get_node_relative ?H 0 ''x/b'' = Inr None"
    using get_node_relative_segments [of ?H 0 "''x/b''" "''x''" "''b''" 0 "[]"] c3
    by simp
  have r4: "qdt_get_node_relative ?H 0 ''a/b/c'' = Inr None"
    using get_node_relative_segments [of ?H 0 "''a/b/c''"] c0 c1 c4
    by simp
  have r5: "get_subnode ?H 1 ''b/c'' 1 = Inr (Some 2)"
    using get_node_relative_segments [of ?H 1 "[]" "[]" "[]" 1 "''b/c''"]
    by simp
  show ?thesis using built s r1 r2 r3 r4 r5 by simp
qed

theorem get_node_root_path_witness:
  "run_api LittleEndian [] [NewNode [], AddSubnode 0 ''cpus'']
     = Some [\<lparr>name = [], parent = None, properties = [], children = [1]\<rparr>,
             \<lparr>name = ''cpus'', parent = Some 0, properties = [], children = []\<rparr>]
   \<and> (0::nat) < length [\<lparr>name = [], parent = None, properties = [], children = [1]\<rparr>,
             \<lparr>name = ''cpus'', parent = Some 0, properties = [], children = []\<rparr>]
   \<and> parent ([\<lparr>name = [], parent = None, properties = [], children = [1]\<rparr>,
               \<lparr>name = ''cpus'', parent = Some 0, properties = [], children = []\<rparr>] ! 0) = None
   \<and> qdt_get_node [\<lparr>name = [], parent = None, properties = [], children = [1]\<rparr>,
                    \<lparr>name = ''cpus'', parent = Some 0, properties = [], children = []\<rparr>] 0 ''/''
       = Inr None
   \<and> qdt_get_node [\<lparr>name = [], parent = None, properties = [], children = [1]\<rparr>,
                    \<lparr>name = ''cpus'', parent = Some 0, properties = [], children = []\<rparr>] 0 ''/''
       \<noteq> Inr (Some 0)
   \<and> qdt_new_tree [] = Inr ([\<lparr>name = [], parent = None, properties = [], children = []\<rparr>], 0)
   \<and> qdt_get_node [\<lparr>name = [], parent = None, properties = [], children = []\<rparr>] 0 ''/''
       = Inr None"
proof -
  let ?H = "[\<lparr>name = [], parent = None, properties = [], children = [1]\<rparr>,
             \<lparr>name = ''cpus'', parent = Some 0, properties = [], children = []\<rparr>]"
  let ?R = "[\<lparr>name = [], parent = None, properties = [], children = []\<rparr>]"
  have built: "run_api LittleEndian [] [NewNode [], AddSubnode 0 ''cpus''] = Some ?H"
    by (simp add: qdt_new_node_def qdt_add_subnode_def Let_def)
  have root: "(0::nat) < length ?H" and par: "parent (?H ! 0) = None" by simp_all
  have none: "child_named ?H 0 [] = None" by (simp add: child_named_def)
  have fresh: "qdt_new_tree [] = Inr (?R, 0)" by (simp add: qdt_new_tree_def qdt_new_node_def)
  note t = get_node_root_path [of ?H 0 LittleEndian "[NewNode [], AddSubnode 0 ''cpus'']" "[]" ?R 0]
  have r1: "qdt_get_node ?H 0 ''/'' = Inr None" using t par none by blast
  have r2: "qdt_get_node ?H 0 ''/'' \<noteq> Inr (Some 0)" using t built root par by blast
  have r3: "qdt_get_node ?R 0 ''/'' = Inr None" using t fresh by blast
  show ?thesis using built root par r1 r2 r3 fresh by blast
qed

section \<open>Flattening\<close>

lemma run_ops_append:
  "run_ops lib fdt (xs @ ys) =
     (case run_ops lib fdt xs of
        (fdt', None) \<Rightarrow> run_ops lib fdt' ys
      | (fdt', Some err) \<Rightarrow> (fdt', Some err))"
  by (induction xs arbitrary: fdt) (auto split: prod.splits)

lemma flatten_props_run_ops:
  "flatten_props lib fdt props =
     run_ops lib fdt (map (\<lambda>prop. Property (prop_name prop) (prop_val prop) (prop_len prop)) props)"
  by (induction props arbitrary: fdt) (auto simp: step_error_def split: prod.splits)

lemma flatten_tree_of:
  "(\<forall>t fdt. tree_of depth h node = Some t \<longrightarrow>
      qdt_flatten_node depth lib h fdt node = Some (run_ops lib fdt (preorder_ops t)))"
  "(\<forall>ts fdt. trees_of depth h cs = Some ts \<longrightarrow>
      flatten_children depth lib h fdt cs
        = Some (run_ops lib fdt (concat (map preorder_ops ts))))"
proof (induction depth h node and depth h cs rule: tree_of_trees_of.induct)
  case (1 h node)
  then show ?case by simp
next
  case (2 depth h node)
  show ?case
  proof (intro allI impI)
    fix t fdt assume "tree_of (Suc depth) h node = Some t"
    then obtain ts where ts: "trees_of depth h (children (h ! node)) = Some ts"
      and t: "t = Tree (name (h ! node)) (properties (h ! node)) ts"
      by (auto split: option.splits)
    from 2 ts have ch: "\<And>fdt. flatten_children depth lib h fdt (children (h ! node))
        = Some (run_ops lib fdt (concat (map preorder_ops ts)))" by blast
    show "qdt_flatten_node (Suc depth) lib h fdt node = Some (run_ops lib fdt (preorder_ops t))"
      by (simp add: t ch flatten_props_run_ops run_ops_append step_error_def
            split: prod.splits option.splits)
  qed
next
  case (3 depth h)
  then show ?case by simp
next
  case (4 depth h c cs)
  show ?case
  proof (intro allI impI)
    fix ts fdt assume "trees_of depth h (c # cs) = Some ts"
    then obtain t ts' where t: "tree_of depth h c = Some t"
      and ts': "trees_of depth h cs = Some ts'" and ts: "ts = t # ts'"
      by (auto split: option.splits)
    from 4(1) t have a: "\<And>fdt. qdt_flatten_node depth lib h fdt c
        = Some (run_ops lib fdt (preorder_ops t))" by blast
    from 4(2) [OF t] ts' have b: "\<And>fdt. flatten_children depth lib h fdt cs
        = Some (run_ops lib fdt (concat (map preorder_ops ts')))" by blast
    show "flatten_children depth lib h fdt (c # cs)
        = Some (run_ops lib fdt (concat (map preorder_ops ts)))"
      by (simp add: ts a b run_ops_append split: prod.splits option.splits)
  qed
qed


lemma run_ops_recorder: "run_ops recorder log ops = (log @ ops, None)"
proof (induction ops arbitrary: log)
  case Nil
  then show ?case by simp
next
  case (Cons op ops)
  have "emit recorder log op = (0, log @ [op])"
    by (cases op) (simp_all add: recorder_def)
  with Cons show ?case by simp
qed

lemma run_ops_fail:
  assumes "run_ops lib fdt pre = (fdt0, None)" and "emit lib fdt0 op = (ret, fdt1)" and "ret < 0"
  shows "run_ops lib fdt (pre @ op # post) = (fdt1, Some (step_error lib op ret))"
  using assms by (simp add: run_ops_append)

text \<open>
  C1. For a node whose tree \<open>t\<close> is found within the depth given, \<^verbatim>\<open>qdt_flatten_node\<close>
  makes the encoder calls of \<open>preorder_ops t\<close>, one after the other from the buffer it is
  given, up to the first call that fails: node-begin with the node's name, a property
  record for each property in list order, the calls for each child in child-list order,
  node-end last. With the encoder that records its calls and never fails, what it adds
  to the record is exactly \<open>preorder_ops t\<close>.
\<close>

theorem qdt_flatten_node_preorder:
  "tree_of depth h node = Some t \<longrightarrow>
     qdt_flatten_node depth lib h fdt node = Some (run_ops lib fdt (preorder_ops t))
     \<and> qdt_flatten_node depth recorder h log node = Some (log @ preorder_ops t, None)"
  using flatten_tree_of(1) [of depth h node lib] flatten_tree_of(1) [of depth h node recorder]
  by (simp add: run_ops_recorder)

lemma qdt_flatten_steps:
  assumes par: "parent (h ! root) = None" and t: "tree_of depth h root = Some t"
  shows "qdt_flatten depth lib h root bufsize
          = Some (Inr (case run_ops lib (g_malloc0 lib bufsize) (flatten_steps bufsize t) of
                         (fdt, None) \<Rightarrow> (Some fdt, None)
                       | (fdt, Some e) \<Rightarrow> (None, Some e)))"
proof -
  have n: "\<And>fdt. qdt_flatten_node depth lib h fdt root = Some (run_ops lib fdt (preorder_ops t))"
    using flatten_tree_of(1) [of depth h root lib] t by blast
  show ?thesis
    unfolding qdt_flatten_def flatten_steps_def Let_def
    by (simp add: par n run_ops_append step_error_def split: prod.splits option.splits)
qed

lemma qdt_flatten_buffer_or_error:
  "qdt_flatten depth lib h root bufsize = Some (Inr (buf, err)) \<Longrightarrow> (buf = None) = (err \<noteq> None)"
  unfolding qdt_flatten_def Let_def
  by (auto split: if_splits prod.splits option.splits)

text \<open>
  C2. \<^verbatim>\<open>qdt_flatten\<close> never returns a buffer together with an error, and returns an error
  whenever it returns no buffer. On a root whose tree is found within the depth given, it
  runs the steps create, finish-reservemap, the traversal, finish; when they all succeed
  it returns the buffer as the last step left it, and when one fails it returns no
  buffer and the error naming that step. In particular, when a step fails after the
  ones before it have succeeded, the result is NULL with the message of that step; and
  \<^verbatim>\<open>qdt_flatten_node\<close> then leaves the buffer as the failing call left it, so no later call
  (for a sibling or for the end of a parent) has been made.
\<close>

theorem qdt_flatten_failure:
  "(qdt_flatten depth lib h root bufsize = Some (Inr (buf, err)) \<longrightarrow>
      (buf = None \<longleftrightarrow> err \<noteq> None))
   \<and> (parent (h ! root) = None \<and> tree_of depth h root = Some t \<longrightarrow>
        qdt_flatten depth lib h root bufsize
          = Some (Inr (case run_ops lib (g_malloc0 lib bufsize) (flatten_steps bufsize t) of
                         (fdt, None) \<Rightarrow> (Some fdt, None)
                       | (fdt, Some e) \<Rightarrow> (None, Some e))))
   \<and> (parent (h ! root) = None \<and> tree_of depth h root = Some t
      \<and> flatten_steps bufsize t = pre @ op # post
      \<and> run_ops lib (g_malloc0 lib bufsize) pre = (fdt0, None)
      \<and> emit lib fdt0 op = (ret, fdt1) \<and> ret < 0 \<longrightarrow>
        qdt_flatten depth lib h root bufsize
          = Some (Inr (None, Some (''Error flattening device tree: '' @ step_name op
                                    @ ''(): '' @ fdt_strerror lib ret))))
   \<and> (tree_of depth h node = Some t' \<and> preorder_ops t' = pre' @ op' # post'
      \<and> run_ops lib fdt pre' = (fdt0', None)
      \<and> emit lib fdt0' op' = (ret', fdt1') \<and> ret' < 0 \<longrightarrow>
        qdt_flatten_node depth lib h fdt node
          = Some (fdt1', Some (''Error flattening device tree: '' @ step_name op'
                                @ ''(): '' @ fdt_strerror lib ret')))"
proof (intro conjI impI)
  show "buf = None \<longleftrightarrow> err \<noteq> None"
    if "qdt_flatten depth lib h root bufsize = Some (Inr (buf, err))"
    using that by (rule qdt_flatten_buffer_or_error)
next
  assume a: "parent (h ! root) = None \<and> tree_of depth h root = Some t"
  then show "qdt_flatten depth lib h root bufsize
          = Some (Inr (case run_ops lib (g_malloc0 lib bufsize) (flatten_steps bufsize t) of
                         (fdt, None) \<Rightarrow> (Some fdt, None)
                       | (fdt, Some e) \<Rightarrow> (None, Some e)))"
    by (simp add: qdt_flatten_steps)
next
  assume a: "parent (h ! root) = None \<and> tree_of depth h root = Some t
      \<and> flatten_steps bufsize t = pre @ op # post
      \<and> run_ops lib (g_malloc0 lib bufsize) pre = (fdt0, None)
      \<and> emit lib fdt0 op = (ret, fdt1) \<and> ret < 0"
  then have "run_ops lib (g_malloc0 lib bufsize) (flatten_steps bufsize t)
               = (fdt1, Some (step_error lib op ret))"
    using run_ops_fail [of lib "g_malloc0 lib bufsize" pre fdt0 op ret fdt1 post] by simp
  with a show "qdt_flatten depth lib h root bufsize
          = Some (Inr (None, Some (''Error flattening device tree: '' @ step_name op
                                    @ ''(): '' @ fdt_strerror lib ret)))"
    by (simp add: qdt_flatten_steps step_error_def)
next
  assume a: "tree_of depth h node = Some t' \<and> preorder_ops t' = pre' @ op' # post'
      \<and> run_ops lib fdt pre' = (fdt0', None)
      \<and> emit lib fdt0' op' = (ret', fdt1') \<and> ret' < 0"
  then have "run_ops lib fdt (preorder_ops t') = (fdt1', Some (step_error lib op' ret'))"
    using run_ops_fail [of lib fdt pre' fdt0' op' ret' fdt1' post'] by simp
  moreover from a have "qdt_flatten_node depth lib h fdt node
                          = Some (run_ops lib fdt (preorder_ops t'))"
    using flatten_tree_of(1) [of depth h node lib] by blast
  ultimately show "qdt_flatten_node depth lib h fdt node
          = Some (fdt1', Some (''Error flattening device tree: '' @ step_name op'
                                @ ''(): '' @ fdt_strerror lib ret'))"
    by (simp add: step_error_def)
qed


lemma example_built: "run_api LittleEndian [] example_calls = Some example_heap"
  unfolding example_calls_def example_heap_def
  by (simp add: qdt_eval)

lemma example_tree_of: "tree_of 3 example_heap 0 = Some example_tree"
  unfolding example_heap_def example_tree_def
  by (simp add: numeral_3_eq_3)

theorem qdt_flatten_node_preorder_witness:
  "tree_of 3 example_heap 0 = Some example_tree
   \<and> qdt_flatten_node 3 recorder example_heap [] 0
       = Some ([BeginNode [], Property ''model'' [113, 0] 2, BeginNode ''cpus'',
                BeginNode ''cpu@0'', Property ''reg'' [0, 0, 0, 7] 4, EndNode,
                EndNode, BeginNode ''memory'', EndNode, EndNode], None)"
proof -
  have ops: "preorder_ops example_tree
       = [BeginNode [], Property ''model'' [113, 0] 2, BeginNode ''cpus'',
          BeginNode ''cpu@0'', Property ''reg'' [0, 0, 0, 7] 4, EndNode,
          EndNode, BeginNode ''memory'', EndNode, EndNode]"
    by (simp add: example_tree_def)
  from qdt_flatten_node_preorder [of 3 example_heap 0 example_tree recorder "[]" "[]"]
    example_tree_of
  have "qdt_flatten_node 3 recorder example_heap [] 0 = Some ([] @ preorder_ops example_tree, None)"
    by blast
  with example_tree_of show ?thesis by (simp add: ops)
qed

theorem qdt_flatten_failure_witness:
  "parent (example_heap ! 0) = None
   \<and> tree_of 3 example_heap 0 = Some example_tree
   \<and> qdt_flatten 3 (failing_recorder 3) example_heap 0 64
       = Some (Inr (None,
            Some ''Error flattening device tree: fdt_property(): FDT_ERR_NOSPACE''))
   \<and> qdt_flatten 3 recorder example_heap 0 64
       = Some (Inr (Some [Create 64, FinishReservemap, BeginNode [],
                          Property ''model'' [113, 0] 2, BeginNode ''cpus'',
                          BeginNode ''cpu@0'', Property ''reg'' [0, 0, 0, 7] 4,
                          EndNode, EndNode, BeginNode ''memory'', EndNode, EndNode, Finish],
                    None))"
proof -
  have par: "parent (example_heap ! 0) = None" by (simp add: example_heap_def)
  have steps: "flatten_steps 64 example_tree
       = [Create 64, FinishReservemap, BeginNode [],
          Property ''model'' [113, 0] 2, BeginNode ''cpus'',
          BeginNode ''cpu@0'', Property ''reg'' [0, 0, 0, 7] 4,
          EndNode, EndNode, BeginNode ''memory'', EndNode, EndNode, Finish]"
    by (simp add: flatten_steps_def example_tree_def)
  have bad: "run_ops (failing_recorder 3) (g_malloc0 (failing_recorder 3) 64)
               (flatten_steps 64 example_tree)
       = ([Create 64, FinishReservemap, BeginNode [], Property ''model'' [113, 0] 2],
          Some ''Error flattening device tree: fdt_property(): FDT_ERR_NOSPACE'')"
    unfolding steps by (simp add: failing_recorder_def step_error_def)
  have good: "run_ops recorder (g_malloc0 recorder 64) (flatten_steps 64 example_tree)
       = ([Create 64, FinishReservemap, BeginNode [],
          Property ''model'' [113, 0] 2, BeginNode ''cpus'',
          BeginNode ''cpu@0'', Property ''reg'' [0, 0, 0, 7] 4,
          EndNode, EndNode, BeginNode ''memory'', EndNode, EndNode, Finish], None)"
    unfolding steps by (simp add: recorder_def)
  from qdt_flatten_failure [where depth = 3 and h = example_heap and root = 0
      and t = example_tree and lib = "failing_recorder 3" and bufsize = 64] par example_tree_of
  have r1: "qdt_flatten 3 (failing_recorder 3) example_heap 0 64
       = Some (Inr (None,
            Some ''Error flattening device tree: fdt_property(): FDT_ERR_NOSPACE''))"
    unfolding bad by simp
  from qdt_flatten_failure [where depth = 3 and h = example_heap and root = 0
      and t = example_tree and lib = recorder and bufsize = 64] par example_tree_of
  have r2: "qdt_flatten 3 recorder example_heap 0 64
       = Some (Inr (Some [Create 64, FinishReservemap, BeginNode [],
                          Property ''model'' [113, 0] 2, BeginNode ''cpus'',
                          BeginNode ''cpu@0'', Property ''reg'' [0, 0, 0, 7] 4,
                          EndNode, EndNode, BeginNode ''memory'', EndNode, EndNode, Finish],
                    None))"
    unfolding good by simp
  show ?thesis using par example_tree_of r1 r2 by blast
qed

section \<open>Termination and depth of the traversal\<close>

lemma fold_max_le: "fold max xs (a::nat) \<le> d \<longleftrightarrow> a \<le> d \<and> (\<forall>x\<in>set xs. x \<le> d)"
  by (induction xs arbitrary: a) auto

lemma tree_of_mono:
  "(\<forall>t d'. tree_of depth h node = Some t \<longrightarrow> depth \<le> d' \<longrightarrow> tree_of d' h node = Some t)"
  "(\<forall>ts d'. trees_of depth h cs = Some ts \<longrightarrow> depth \<le> d' \<longrightarrow> trees_of d' h cs = Some ts)"
proof (induction depth h node and depth h cs rule: tree_of_trees_of.induct)
  case (1 h node)
  then show ?case by simp
next
  case (2 depth h node)
  show ?case
  proof (intro allI impI)
    fix t d' assume a: "tree_of (Suc depth) h node = Some t" and le: "Suc depth \<le> d'"
    from a obtain ts where ts: "trees_of depth h (children (h ! node)) = Some ts"
      and t: "t = Tree (name (h ! node)) (properties (h ! node)) ts"
      by (auto split: option.splits)
    from le obtain e where d': "d' = Suc e" and e: "depth \<le> e" by (cases d') auto
    from 2 ts e have "trees_of e h (children (h ! node)) = Some ts" by blast
    then show "tree_of d' h node = Some t" by (simp add: d' t)
  qed
next
  case (3 depth h)
  then show ?case by simp
next
  case (4 depth h c cs)
  show ?case
  proof (intro allI impI)
    fix ts d' assume a: "trees_of depth h (c # cs) = Some ts" and le: "depth \<le> d'"
    from a obtain t ts' where t: "tree_of depth h c = Some t"
      and ts': "trees_of depth h cs = Some ts'" and ts: "ts = t # ts'"
      by (auto split: option.splits)
    from 4(1) t le have "tree_of d' h c = Some t" by blast
    moreover from 4(2) [OF t] ts' le have "trees_of d' h cs = Some ts'" by blast
    ultimately show "trees_of d' h (c # cs) = Some ts" by (simp add: ts)
  qed
qed

lemma tree_of_height:
  "(\<forall>t. tree_of depth h node = Some t \<longrightarrow>
       height t \<le> depth \<and> tree_of (height t) h node = Some t)"
  "(\<forall>ts. trees_of depth h cs = Some ts \<longrightarrow>
       (\<forall>t\<in>set ts. height t \<le> depth)
       \<and> (\<forall>m. (\<forall>t\<in>set ts. height t \<le> m) \<longrightarrow> trees_of m h cs = Some ts))"
proof (induction depth h node and depth h cs rule: tree_of_trees_of.induct)
  case (1 h node)
  then show ?case by simp
next
  case (2 depth h node)
  show ?case
  proof (intro allI impI)
    fix t assume a: "tree_of (Suc depth) h node = Some t"
    from a obtain ts where ts: "trees_of depth h (children (h ! node)) = Some ts"
      and t: "t = Tree (name (h ! node)) (properties (h ! node)) ts"
      by (auto split: option.splits)
    from 2 ts have le: "\<forall>t\<in>set ts. height t \<le> depth"
      and m: "\<And>m. (\<forall>t\<in>set ts. height t \<le> m) \<Longrightarrow> trees_of m h (children (h ! node)) = Some ts"
      by blast+
    have h: "height t = Suc (fold max (map height ts) 0)" by (simp add: t)
    from le have "fold max (map height ts) 0 \<le> depth" by (simp add: fold_max_le)
    then have 1: "height t \<le> Suc depth" by (simp add: h)
    have "\<forall>t\<in>set ts. height t \<le> fold max (map height ts) 0"
      using fold_max_le [of "map height ts" 0 "fold max (map height ts) 0"] by simp
    then have "trees_of (fold max (map height ts) 0) h (children (h ! node)) = Some ts"
      by (rule m)
    then have 2: "tree_of (height t) h node = Some t" by (simp add: h) (simp add: t)
    from 1 2 show "height t \<le> Suc depth \<and> tree_of (height t) h node = Some t" by blast
  qed
next
  case (3 depth h)
  then show ?case by simp
next
  case (4 depth h c cs)
  show ?case
  proof (intro allI impI)
    fix ts assume a: "trees_of depth h (c # cs) = Some ts"
    from a obtain t ts' where t: "tree_of depth h c = Some t"
      and ts': "trees_of depth h cs = Some ts'" and ts: "ts = t # ts'"
      by (auto split: option.splits)
    from 4(1) t have t1: "height t \<le> depth" and t2: "tree_of (height t) h c = Some t" by blast+
    from 4(2) [OF t] ts' have s1: "\<forall>t\<in>set ts'. height t \<le> depth"
      and s2: "\<And>m. (\<forall>t\<in>set ts'. height t \<le> m) \<Longrightarrow> trees_of m h cs = Some ts'"
      by blast+
    have "trees_of m h (c # cs) = Some ts" if "\<forall>t\<in>set ts. height t \<le> m" for m
    proof -
      from that have "height t \<le> m" and "\<forall>t\<in>set ts'. height t \<le> m" by (simp_all add: ts)
      then have "tree_of m h c = Some t" and "trees_of m h cs = Some ts'"
        using tree_of_mono(1) [of "height t" h c] t2 s2 by blast+
      then show ?thesis by (simp add: ts)
    qed
    with t1 s1 show "(\<forall>t\<in>set ts. height t \<le> depth)
       \<and> (\<forall>m. (\<forall>t\<in>set ts. height t \<le> m) \<longrightarrow> trees_of m h (c # cs) = Some ts)"
      by (simp add: ts)
  qed
qed

lemma tree_of_at_least_height:
  assumes "tree_of D h node = Some t" and "height t \<le> d"
  shows "tree_of d h node = Some t"
proof -
  from tree_of_height(1) [of D h node] assms(1) have "tree_of (height t) h node = Some t"
    by blast
  with tree_of_mono(1) [of "height t" h node] assms(2) show ?thesis by blast
qed


lemma trees_of_all:
  assumes "\<And>c. c \<in> set cs \<Longrightarrow> \<exists>t. tree_of d h c = Some t"
  shows "\<exists>ts. trees_of d h cs = Some ts"
  using assms
proof (induction cs)
  case Nil
  then show ?case by simp
next
  case (Cons c cs)
  from Cons.prems obtain t where t: "tree_of d h c = Some t" by auto
  from Cons obtain ts where "trees_of d h cs = Some ts" by auto
  with t show ?case by simp
qed

lemma tree_shaped_tree_of:
  assumes t: "tree_shaped h"
  shows "node < length h \<Longrightarrow> \<exists>tr. tree_of (length h - node) h node = Some tr"
proof (induction "length h - node" arbitrary: node rule: less_induct)
  case less
  have "\<exists>tc. tree_of (length h - node - 1) h c = Some tc"
    if c: "c \<in> set (children (h ! node))" for c
  proof -
    from tree_shapedD(2,3) [OF t less.prems c] have lt: "node < c" "c < length h" .
    then have "length h - c < length h - node" by simp
    from less.hyps [OF this lt(2)] obtain tc where tc: "tree_of (length h - c) h c = Some tc"
      by blast
    from lt have "length h - c \<le> length h - node - 1" by simp
    with tree_of_mono(1) [of "length h - c" h c] tc
    have "tree_of (length h - node - 1) h c = Some tc" by blast
    then show ?thesis by blast
  qed
  then obtain ts where ts: "trees_of (length h - node - 1) h (children (h ! node)) = Some ts"
    using trees_of_all [of "children (h ! node)" "length h - node - 1" h] by blast
  from less.prems have "length h - node = Suc (length h - node - 1)" by simp
  then have "tree_of (length h - node) h node
               = (case trees_of (length h - node - 1) h (children (h ! node)) of
                    None \<Rightarrow> None
                  | Some ts \<Rightarrow> Some (Tree (name (h ! node)) (properties (h ! node)) ts))"
    by (metis tree_of.simps(2))
  with ts show ?case by simp
qed

lemma flatten_too_shallow:
  "(\<forall>D t fdt. tree_of D h node = Some t \<longrightarrow> snd (run_ops lib fdt (preorder_ops t)) = None
       \<longrightarrow> depth < height t \<longrightarrow> qdt_flatten_node depth lib h fdt node = None)"
  "(\<forall>D ts fdt. trees_of D h cs = Some ts
       \<longrightarrow> snd (run_ops lib fdt (concat (map preorder_ops ts))) = None
       \<longrightarrow> (\<exists>t\<in>set ts. depth < height t) \<longrightarrow> flatten_children depth lib h fdt cs = None)"
proof (induction depth h node and depth h cs rule: tree_of_trees_of.induct)
  case (1 h node)
  then show ?case by simp
next
  case (2 depth h node)
  show ?case
  proof (intro allI impI)
    fix D t fdt
    assume a: "tree_of D h node = Some t"
      and ok: "snd (run_ops lib fdt (preorder_ops t)) = None"
      and lt: "Suc depth < height t"
    from a obtain D' where D: "D = Suc D'" by (cases D) auto
    from a D obtain ts where ts: "trees_of D' h (children (h ! node)) = Some ts"
      and t: "t = Tree (name (h ! node)) (properties (h ! node)) ts"
      by (auto split: option.splits)
    obtain ret fdt1 where b: "fdt_begin_node lib fdt (name (h ! node)) = (ret, fdt1)"
      by (cases "fdt_begin_node lib fdt (name (h ! node))")
    obtain fdt2 e2 where p: "flatten_props lib fdt1 (properties (h ! node)) = (fdt2, e2)"
      by (cases "flatten_props lib fdt1 (properties (h ! node))")
    from ok have ret: "\<not> ret < 0" by (auto simp: t b split: if_splits)
    from ok ret have e2: "e2 = None"
      using p by (auto simp: t b flatten_props_run_ops run_ops_append split: option.splits)
    from ok ret have ok2: "snd (run_ops lib fdt2 (concat (map preorder_ops ts))) = None"
      using p
      by (auto simp: t b e2 flatten_props_run_ops run_ops_append
            split: option.splits prod.splits)
    from lt have "\<not> fold max (map height ts) 0 \<le> depth" by (simp add: t)
    then have "\<exists>t\<in>set ts. depth < height t" by (auto simp: fold_max_le not_le)
    with 2 ts ok2 have "flatten_children depth lib h fdt2 (children (h ! node)) = None"
      by blast
    then show "qdt_flatten_node (Suc depth) lib h fdt node = None"
      by (simp add: b ret p e2)
  qed
next
  case (3 depth h)
  then show ?case by simp
next
  case (4 depth h c cs)
  show ?case
  proof (intro allI impI)
    fix D ts fdt
    assume a: "trees_of D h (c # cs) = Some ts"
      and ok: "snd (run_ops lib fdt (concat (map preorder_ops ts))) = None"
      and ex: "\<exists>t\<in>set ts. depth < height t"
    from a obtain t ts' where t: "tree_of D h c = Some t"
      and ts': "trees_of D h cs = Some ts'" and ts: "ts = t # ts'"
      by (auto split: option.splits)
    obtain fdt' e' where r: "run_ops lib fdt (preorder_ops t) = (fdt', e')"
      by (cases "run_ops lib fdt (preorder_ops t)")
    from ok have e': "e' = None"
      by (auto simp: ts r run_ops_append split: option.splits)
    from ok have ok': "snd (run_ops lib fdt' (concat (map preorder_ops ts'))) = None"
      by (simp add: ts r e' run_ops_append)
    show "flatten_children depth lib h fdt (c # cs) = None"
    proof (cases "depth < height t")
      case True
      with 4(1) t r e' have "qdt_flatten_node depth lib h fdt c = None"
        by (metis snd_conv)
      then show ?thesis by simp
    next
      case False
      then have le: "height t \<le> depth" by simp
      have td: "tree_of depth h c = Some t" by (rule tree_of_at_least_height [OF t le])
      from flatten_tree_of(1) [of depth h c lib] td
      have f: "qdt_flatten_node depth lib h fdt c = Some (fdt', None)" by (simp add: r e')
      from ex False have "\<exists>t\<in>set ts'. depth < height t" by (simp add: ts)
      with 4(2) [OF td] ts' ok' have "flatten_children depth lib h fdt' cs = None" by blast
      then show ?thesis by (simp add: f)
    qed
  qed
qed


text \<open>
  C9 (as amended). In a store built through the interface every node has a tree below
  it, no deeper than the store is long, and \<^verbatim>\<open>qdt_flatten_node\<close> returns on it: a call
  stack as deep as the tree is high is always enough, and when no encoder call fails a
  shallower one is not, so that the recursion then goes exactly as deep as the tree.
\<close>

theorem qdt_flatten_node_terminates:
  "run_api host [] cs = Some h \<and> node < length h \<longrightarrow>
     (\<exists>t. tree_of (length h) h node = Some t
        \<and> height t \<le> length h
        \<and> (\<forall>d. height t \<le> d \<longrightarrow>
              qdt_flatten_node d lib h fdt node = Some (run_ops lib fdt (preorder_ops t)))
        \<and> (\<forall>d. d < height t \<and> snd (run_ops lib fdt (preorder_ops t)) = None \<longrightarrow>
              qdt_flatten_node d lib h fdt node = None))"
proof
  assume a: "run_api host [] cs = Some h \<and> node < length h"
  then have sh: "tree_shaped h" by (blast intro: run_api_tree_shaped [OF tree_shaped_empty])
  from a have node: "node < length h" by simp
  from tree_shaped_tree_of [OF sh node] obtain t
    where t0: "tree_of (length h - node) h node = Some t" by blast
  from tree_of_mono(1) [of "length h - node" h node] t0
  have t: "tree_of (length h) h node = Some t" by (metis diff_le_self)
  from tree_of_height(1) [of "length h" h node] t have le: "height t \<le> length h" by blast
  have enough: "qdt_flatten_node d lib h fdt node = Some (run_ops lib fdt (preorder_ops t))"
    if "height t \<le> d" for d
  proof -
    have "tree_of d h node = Some t" by (rule tree_of_at_least_height [OF t that])
    with flatten_tree_of(1) [of d h node lib] show ?thesis by blast
  qed
  have short: "qdt_flatten_node d lib h fdt node = None"
    if "d < height t \<and> snd (run_ops lib fdt (preorder_ops t)) = None" for d
    using flatten_too_shallow(1) [of h node lib d] t that by blast
  from t le enough short
  show "\<exists>t. tree_of (length h) h node = Some t
        \<and> height t \<le> length h
        \<and> (\<forall>d. height t \<le> d \<longrightarrow>
              qdt_flatten_node d lib h fdt node = Some (run_ops lib fdt (preorder_ops t)))
        \<and> (\<forall>d. d < height t \<and> snd (run_ops lib fdt (preorder_ops t)) = None \<longrightarrow>
              qdt_flatten_node d lib h fdt node = None)"
    by blast
qed

lemma example_height: "height example_tree = 3"
  by (simp add: example_tree_def)

theorem qdt_flatten_node_terminates_witness:
  "run_api LittleEndian [] example_calls = Some example_heap
   \<and> (0::nat) < length example_heap
   \<and> tree_of (length example_heap) example_heap 0 = Some example_tree
   \<and> height example_tree = 3
   \<and> qdt_flatten_node 3 recorder example_heap [] 0 = Some (preorder_ops example_tree, None)
   \<and> qdt_flatten_node 2 recorder example_heap [] 0 = None"
proof -
  have len: "(0::nat) < length example_heap" by (simp add: example_heap_def)
  have "(3::nat) \<le> length example_heap" by (simp add: example_heap_def)
  with tree_of_mono(1) [of 3 example_heap 0] example_tree_of
  have full: "tree_of (length example_heap) example_heap 0 = Some example_tree" by blast
  from qdt_flatten_node_terminates [of LittleEndian example_calls example_heap 0 recorder "[]"]
    example_built len
  obtain t where t: "tree_of (length example_heap) example_heap 0 = Some t"
    and enough: "\<And>d. height t \<le> d \<Longrightarrow>
       qdt_flatten_node d recorder example_heap [] 0
         = Some (run_ops recorder [] (preorder_ops t))"
    and short: "\<And>d. d < height t \<and> snd (run_ops recorder [] (preorder_ops t)) = None \<Longrightarrow>
       qdt_flatten_node d recorder example_heap [] 0 = None"
    by blast
  from t full have tt: "t = example_tree" by simp
  have r3: "qdt_flatten_node 3 recorder example_heap [] 0 = Some (preorder_ops example_tree, None)"
    using enough [of 3] by (simp add: tt example_height run_ops_recorder)
  have r2: "qdt_flatten_node 2 recorder example_heap [] 0 = None"
    using short [of 2] by (simp add: tt example_height run_ops_recorder)
  show ?thesis using example_built len full example_height r3 r2 by blast
qed

text \<open>
  C9 as first stated asks for a recursion as deep as the tree in every run. When the
  first encoder call fails the traversal returns from the root's own activation, at
  depth 1, on a tree of depth 2 built by \<^verbatim>\<open>qdt_new_node\<close> and \<^verbatim>\<open>qdt_add_subnode\<close> alone.
\<close>

theorem qdt_flatten_node_depth_counterexample:
  "run_api LittleEndian [] [NewNode [], AddSubnode 0 ''cpus'']
     = Some [\<lparr>name = [], parent = None, properties = [], children = [1]\<rparr>,
             \<lparr>name = ''cpus'', parent = Some 0, properties = [], children = []\<rparr>]
   \<and> tree_of 2 [\<lparr>name = [], parent = None, properties = [], children = [1]\<rparr>,
                 \<lparr>name = ''cpus'', parent = Some 0, properties = [], children = []\<rparr>] 0
       = Some (Tree [] [] [Tree ''cpus'' [] []])
   \<and> height (Tree [] [] [Tree ''cpus'' [] []]) = 2
   \<and> qdt_flatten_node 0 (failing_recorder 0)
         [\<lparr>name = [], parent = None, properties = [], children = [1]\<rparr>,
          \<lparr>name = ''cpus'', parent = Some 0, properties = [], children = []\<rparr>] [] 0
       = None
   \<and> qdt_flatten_node 1 (failing_recorder 0)
         [\<lparr>name = [], parent = None, properties = [], children = [1]\<rparr>,
          \<lparr>name = ''cpus'', parent = Some 0, properties = [], children = []\<rparr>] [] 0
       = Some ([BeginNode []],
               Some ''Error flattening device tree: fdt_begin_node(): FDT_ERR_NOSPACE'')"
  by (simp add: qdt_new_node_def qdt_add_subnode_def Let_def failing_recorder_def
        numeral_2_eq_2)

section \<open>Node construction\<close>

text \<open>
  C8. \<^verbatim>\<open>qdt_new_node\<close> fails its assertion exactly when the name contains the
  separator \<open>/\<close>; otherwise it returns a fresh node with that name, no parent, no
  property and no child, and leaves every other node as it was. \<^verbatim>\<open>qdt_add_subnode\<close>
  fails in the same case; otherwise the node it creates has the given parent and is
  appended at the end of the parent's child list, and nothing else changes.
\<close>

theorem qdt_new_node_add_subnode:
  "((\<exists>e. qdt_new_node h nm = Inl e) \<longleftrightarrow> CHR ''/'' \<in> set nm) \<and>
   (CHR ''/'' \<notin> set nm \<longrightarrow>
      (\<exists>h'. qdt_new_node h nm = Inr (h', length h) \<and> length h' = Suc (length h)
         \<and> h' ! length h = \<lparr>name = nm, parent = None, properties = [], children = []\<rparr>
         \<and> (\<forall>a<length h. h' ! a = h ! a))) \<and>
   (CHR ''/'' \<in> set nm \<longrightarrow> qdt_add_subnode h par nm = Inl AssertionFailed) \<and>
   (CHR ''/'' \<notin> set nm \<and> par < length h \<longrightarrow>
      (\<exists>h'. qdt_add_subnode h par nm = Inr (h', length h) \<and> length h' = Suc (length h)
         \<and> h' ! length h = \<lparr>name = nm, parent = Some par, properties = [], children = []\<rparr>
         \<and> h' ! par = (h ! par)\<lparr>children := children (h ! par) @ [length h]\<rparr>
         \<and> (\<forall>a<length h. a \<noteq> par \<longrightarrow> h' ! a = h ! a)))"
  by (auto simp: qdt_new_node_def qdt_add_subnode_def nth_append Let_def)

theorem qdt_new_node_add_subnode_witness:
  "CHR ''/'' \<notin> set ''cpus''
   \<and> (0::nat) < length [\<lparr>name = [], parent = None, properties = [], children = []\<rparr>]
   \<and> (\<exists>h'. qdt_add_subnode
               [\<lparr>name = [], parent = None, properties = [], children = []\<rparr>] 0 ''cpus''
             = Inr (h', 1)
        \<and> length h' = 2
        \<and> h' ! 1 = \<lparr>name = ''cpus'', parent = Some 0, properties = [], children = []\<rparr>
        \<and> h' ! 0 = \<lparr>name = [], parent = None, properties = [], children = [1]\<rparr>)
   \<and> CHR ''/'' \<in> set ''a/b''
   \<and> (\<exists>e. qdt_new_node [] ''a/b'' = Inl e)
   \<and> qdt_add_subnode [\<lparr>name = [], parent = None, properties = [], children = []\<rparr>] 0 ''a/b''
       = Inl AssertionFailed"
  using
    qdt_new_node_add_subnode
      [of "[\<lparr>name = [], parent = None, properties = [], children = []\<rparr>]" "''cpus''" 0]
    qdt_new_node_add_subnode [of "[]" "''a/b''" 0]
    qdt_new_node_add_subnode
      [of "[\<lparr>name = [], parent = None, properties = [], children = []\<rparr>]" "''a/b''" 0]
  by (simp add: numeral_2_eq_2)

end
